theory Spec2Isabelle
  imports Main "HOL-Library.Word"
begin

unbundle bit_operations_syntax

section \<open>The memory the table lives in\<close>

text \<open>
  The table of \<^verbatim>\<open>ht.c\<close> maps NUL-terminated strings to \<^verbatim>\<open>void*\<close> values. It stores
  \<^emph>\<open>pointers\<close> to key strings that it allocated with \<^verbatim>\<open>strdup\<close>, and \<^verbatim>\<open>ht_remove\<close> calls
  \<^verbatim>\<open>free\<close> on such a pointer while the slot keeps it. What the program does afterwards
  depends on whether a pointer is still valid, so the model has an explicit store.

  \<^item> \<open>size_t\<close> and \<open>uint64_t\<close> are 64-bit words (LP64, as the \<^verbatim>\<open>UL\<close> constants of the
    source assume): \<open>+\<close>, \<open>-\<close> and \<open>*\<close> wrap.
  \<^item> A \<^verbatim>\<open>void*\<close> value is a 64-bit word, \<open>NULL\<close> is 0.
  \<^item> A \<^verbatim>\<open>const char*\<close> is either \<open>Lit s\<close>, a pointer to a string of the caller that stays
    valid and unchanged (the argument of \<^verbatim>\<open>ht_get\<close>, \<^verbatim>\<open>ht_set\<close>, \<^verbatim>\<open>ht_remove\<close>), or
    \<open>Heap a\<close>, the block number \<open>a\<close> returned by an allocation. The null pointer is \<open>None\<close>
    of \<open>cptr option\<close>.
  \<^item> The store is the list of all allocations ever made; an allocation appends a block. A
    block number names an allocation, not an address: the allocator may hand out the
    address of a freed block again, but a pointer obtained before the \<^verbatim>\<open>free\<close> stays
    invalid in C, and here it keeps the number of the freed block. A block is \<open>Live s\<close>
    or, after \<^verbatim>\<open>free\<close>, \<open>Freed s\<close>; \<open>s\<close> only records what was freed, and no operation
    and no invariant below reads the string of a freed block.
  \<^item> Undefined behaviour of C is a value of type \<open>fault\<close>: reading through a freed or
    invalid pointer, reading an array outside its bounds, freeing what is not a live block.
\<close>

type_synonym size_t = "64 word"
type_synonym voidp = "64 word"

definition NULL :: voidp where
  "NULL = 0"

datatype cptr = Lit string | Heap nat

datatype block = Live string | Freed string

type_synonym mem = "block list"

datatype fault = UseAfterFree | OutOfBounds | InvalidFree

text \<open>A C string ends at its first NUL byte: \<open>c_str\<close> is what the string functions see.\<close>

definition c_str :: "string \<Rightarrow> string" where
  "c_str s = takeWhile (\<lambda>c. c \<noteq> CHR 0x00) s"

text \<open>\<^verbatim>\<open>strcmp(a, b) == 0\<close>\<close>

definition strcmp_eq :: "string \<Rightarrow> string \<Rightarrow> bool" where
  "strcmp_eq a b = (c_str a = c_str b)"

text \<open>Reading the string a pointer points to.\<close>

fun deref :: "mem \<Rightarrow> cptr \<Rightarrow> fault + string" where
  "deref m (Lit s) = Inr s"
| "deref m (Heap a) =
     (if a < length m
      then (case m ! a of Live s \<Rightarrow> Inr s | Freed s \<Rightarrow> Inl UseAfterFree)
      else Inl OutOfBounds)"

text \<open>\<^verbatim>\<open>free(p)\<close> for a non-null \<open>p\<close>.\<close>

fun free :: "mem \<Rightarrow> cptr \<Rightarrow> fault + mem" where
  "free m (Lit s) = Inl InvalidFree"
| "free m (Heap a) =
     (if a < length m
      then (case m ! a of Live s \<Rightarrow> Inr (m[a := Freed s]) | Freed s \<Rightarrow> Inl InvalidFree)
      else Inl InvalidFree)"

text \<open>
  \<^verbatim>\<open>strdup(s)\<close>: a fresh block holding a copy of the C string, or \<open>None\<close> (the null
  pointer) when the allocation fails. Whether it fails is an input, \<open>ok\<close>.
\<close>

definition strdup :: "bool \<Rightarrow> mem \<Rightarrow> string \<Rightarrow> (cptr \<times> mem) option" where
  "strdup ok m s = (if ok then Some (Heap (length m), m @ [Live (c_str s)]) else None)"

section \<open>The table\<close>

text \<open>
  \<^verbatim>\<open>typedef struct { const char* key; void* value; } ht_entry;\<close>
  \<^verbatim>\<open>struct ht { ht_entry* entries; size_t capacity; size_t length; pthread_mutex_t mtx; };\<close>

  The entries array is a list; \<open>capacity\<close> is the field of the struct, kept besides it as
  in the source. The mutex is left out: the model is of one thread. \<^verbatim>\<open>ht_destroy\<close> is
  not modelled: nothing is stated about a table after it.
\<close>

record ht_entry =
  key :: "cptr option"
  val :: voidp

record ht =
  entries :: "ht_entry list"
  capacity :: size_t
  length_ht :: size_t

definition INITIAL_CAPACITY :: size_t where
  "INITIAL_CAPACITY = 16"

text \<open>A zeroed entry, as \<^verbatim>\<open>calloc\<close> returns it.\<close>

definition zero_entry :: ht_entry where
  "zero_entry = \<lparr>key = None, val = NULL\<rparr>"

definition calloc_entries :: "size_t \<Rightarrow> ht_entry list" where
  "calloc_entries n = replicate (unat n) zero_entry"

text \<open>
  \<^verbatim>\<open>ht_create\<close>: the three inputs say whether \<^verbatim>\<open>malloc\<close>, \<^verbatim>\<open>calloc\<close> and
  \<^verbatim>\<open>pthread_mutex_init\<close> succeed; \<open>None\<close> is the null pointer.
\<close>

definition ht_create :: "bool \<Rightarrow> bool \<Rightarrow> bool \<Rightarrow> ht option" where
  "ht_create malloc_ok calloc_ok mutex_ok =
     (if \<not> malloc_ok then None
      else if \<not> calloc_ok then None
      else if mutex_ok
        then Some \<lparr>entries = calloc_entries INITIAL_CAPACITY,
                   capacity = INITIAL_CAPACITY, length_ht = 0\<rparr>
        else None)"

subsection \<open>Hashing\<close>

definition FNV_OFFSET :: "64 word" where
  "FNV_OFFSET = 14695981039346656037"

definition FNV_PRIME :: "64 word" where
  "FNV_PRIME = 1099511628211"

text \<open>The loop of \<^verbatim>\<open>hash_key\<close>: it stops at the NUL byte (or at the end of the list).\<close>

fun hash_loop :: "64 word \<Rightarrow> string \<Rightarrow> 64 word" where
  "hash_loop hash [] = hash"
| "hash_loop hash (c # p) =
     (if c = CHR 0x00 then hash
      else hash_loop ((hash XOR of_nat (of_char c)) * FNV_PRIME) p)"

definition hash_key :: "string \<Rightarrow> 64 word" where
  "hash_key k = hash_loop FNV_OFFSET k"

text \<open>\<^verbatim>\<open>(size_t)(hash & (uint64_t)(capacity - 1))\<close>\<close>

definition slot_index :: "string \<Rightarrow> size_t \<Rightarrow> nat" where
  "slot_index k cap = unat (hash_key k AND (cap - 1))"

text \<open>
  \<^verbatim>\<open>i++; if (i >= capacity) i = 0;\<close> The loop variable is below \<open>capacity\<close> whenever this
  runs, so the increment does not wrap and the indices are natural numbers.
\<close>

definition next_slot :: "size_t \<Rightarrow> nat \<Rightarrow> nat" where
  "next_slot cap i = (if i + 1 \<ge> unat cap then 0 else i + 1)"

subsection \<open>Lookup\<close>

text \<open>
  The loop of \<^verbatim>\<open>ht_get\<close>, from the slot \<open>i\<close>. Reading \<open>entries[i]\<close> outside the array
  (whose size is \<open>capacity\<close>) is the fault \<open>OutOfBounds\<close>; this happens only when
  \<open>capacity\<close> is 0.
\<close>

function ht_get_loop :: "mem \<Rightarrow> ht \<Rightarrow> string \<Rightarrow> nat \<Rightarrow> nat \<Rightarrow> fault + voidp" where
  "ht_get_loop m t k index i =
     (if index < unat (capacity t) \<and> i < unat (capacity t) \<and> i < length (entries t) then
        (case key (entries t ! i) of
           None \<Rightarrow> Inr NULL
         | Some p \<Rightarrow>
             (case deref m p of
                Inl f \<Rightarrow> Inl f
              | Inr s \<Rightarrow>
                  if strcmp_eq k s then Inr (val (entries t ! i))
                  else if next_slot (capacity t) i = index then Inr NULL
                  else ht_get_loop m t k index (next_slot (capacity t) i)))
      else Inl OutOfBounds)"
  by pat_completeness auto
termination ht_get_loop
  by (relation "measure (\<lambda>(m, t, k, index, i).
        if i = index then unat (capacity t)
        else if i < index then index - i
        else index + unat (capacity t) - i)")
     (auto simp: next_slot_def split: if_splits)

declare ht_get_loop.simps [simp del]

definition ht_get :: "mem \<Rightarrow> ht \<Rightarrow> string \<Rightarrow> fault + voidp" where
  "ht_get m t k =
     (let index = slot_index k (capacity t) in ht_get_loop m t k index index)"

subsection \<open>Insertion\<close>

text \<open>
  The loop of \<^verbatim>\<open>ht_set_entry\<close> either returns from the function (\<open>Returned\<close>, with the
  pointer returned and the entries as the loop left them) or ends at an empty slot
  (\<open>EmptyAt i\<close>, \<open>i\<close> being the value of the loop variable then).
\<close>

datatype set_probe = Returned "cptr option" "ht_entry list" | EmptyAt nat

function ht_set_entry_loop ::
  "mem \<Rightarrow> ht_entry list \<Rightarrow> size_t \<Rightarrow> string \<Rightarrow> voidp \<Rightarrow> nat \<Rightarrow> nat \<Rightarrow> fault + set_probe" where
  "ht_set_entry_loop m es cap k v index i =
     (if index < unat cap \<and> i < unat cap \<and> i < length es then
        (case key (es ! i) of
           None \<Rightarrow> Inr (EmptyAt i)
         | Some p \<Rightarrow>
             (case deref m p of
                Inl f \<Rightarrow> Inl f
              | Inr s \<Rightarrow>
                  if strcmp_eq k s then Inr (Returned (Some p) (es[i := (es ! i)\<lparr>val := v\<rparr>]))
                  else if next_slot cap i = index then Inr (Returned None es)
                  else ht_set_entry_loop m es cap k v index (next_slot cap i)))
      else Inl OutOfBounds)"
  by pat_completeness auto
termination
  by (relation "measure (\<lambda>(m, es, cap, k, v, index, i).
        if i = index then unat cap
        else if i < index then index - i
        else index + unat cap - i)")
     (auto simp: next_slot_def split: if_splits)

declare ht_set_entry_loop.simps [simp del]

text \<open>
  \<^verbatim>\<open>ht_set_entry(entries, capacity, key, value, plength)\<close>. \<open>plength\<close> is \<open>None\<close> for the
  null pointer and \<open>Some n\<close> for a pointer to a counter holding \<open>n\<close>; the result carries the
  returned pointer, the store, the entries and the counter after the call. After the
  loop the source writes \<open>entries[index]\<close>, the slot the probe started from.
\<close>

definition ht_set_entry ::
  "bool \<Rightarrow> mem \<Rightarrow> ht_entry list \<Rightarrow> size_t \<Rightarrow> cptr \<Rightarrow> voidp \<Rightarrow> size_t option
     \<Rightarrow> fault + (cptr option \<times> mem \<times> ht_entry list \<times> size_t option)" where
  "ht_set_entry strdup_ok m es cap kp v plength =
     (case deref m kp of
        Inl f \<Rightarrow> Inl f
      | Inr k \<Rightarrow>
          (let index = slot_index k cap in
           case ht_set_entry_loop m es cap k v index index of
             Inl f \<Rightarrow> Inl f
           | Inr (Returned ret es') \<Rightarrow> Inr (ret, m, es', plength)
           | Inr (EmptyAt i) \<Rightarrow>
               (case plength of
                  Some n \<Rightarrow>
                    (case strdup strdup_ok m k of
                       None \<Rightarrow> Inr (None, m, es, plength)
                     | Some (kp', m') \<Rightarrow>
                         Inr (Some kp', m', es[index := \<lparr>key = Some kp', val = v\<rparr>], Some (n + 1)))
                | None \<Rightarrow> Inr (Some kp, m, es[index := \<lparr>key = Some kp, val = v\<rparr>], None))))"

subsection \<open>Growth\<close>

text \<open>The \<^verbatim>\<open>for\<close> loop of \<^verbatim>\<open>ht_expand\<close>, from \<open>i\<close>; the value \<^verbatim>\<open>ht_set_entry\<close> returns is ignored.\<close>

function ht_expand_loop ::
  "mem \<Rightarrow> ht \<Rightarrow> ht_entry list \<Rightarrow> size_t \<Rightarrow> nat \<Rightarrow> fault + (mem \<times> ht_entry list)" where
  "ht_expand_loop m t new_entries new_capacity i =
     (if i < unat (capacity t) then
        (if i < length (entries t) then
           (let entry = entries t ! i in
            case key entry of
              None \<Rightarrow> ht_expand_loop m t new_entries new_capacity (i + 1)
            | Some kp \<Rightarrow>
                (case ht_set_entry True m new_entries new_capacity kp (val entry) None of
                   Inl f \<Rightarrow> Inl f
                 | Inr (ret, m', es', pl) \<Rightarrow> ht_expand_loop m' t es' new_capacity (i + 1)))
         else Inl OutOfBounds)
      else Inr (m, new_entries))"
  by pat_completeness auto
termination
  by (relation "measure (\<lambda>(m, t, new_entries, new_capacity, i). unat (capacity t) - i)") auto

declare ht_expand_loop.simps [simp del]

text \<open>
  \<^verbatim>\<open>ht_expand\<close>; \<open>calloc_ok\<close> says whether \<^verbatim>\<open>calloc\<close> succeeds. The result is the returned
  \<^verbatim>\<open>bool\<close> with the store and the table after the call.
\<close>

definition ht_expand :: "bool \<Rightarrow> mem \<Rightarrow> ht \<Rightarrow> fault + (bool \<times> mem \<times> ht)" where
  "ht_expand calloc_ok m t =
     (let new_capacity = capacity t * 2 in
      if new_capacity < capacity t then Inr (False, m, t)
      else if \<not> calloc_ok then Inr (False, m, t)
      else
        (case ht_expand_loop m t (calloc_entries new_capacity) new_capacity 0 of
           Inl f \<Rightarrow> Inl f
         | Inr (m', new_entries) \<Rightarrow>
             Inr (True, m', t\<lparr>entries := new_entries, capacity := new_capacity\<rparr>)))"

subsection \<open>The public insertion\<close>

text \<open>
  The first half of \<^verbatim>\<open>ht_set\<close> after the check of the value (lines 176 to 181):
  \<open>Inr None\<close> when \<^verbatim>\<open>ht_expand\<close> fails, otherwise the store and the table with which the
  probe of \<^verbatim>\<open>ht_set_entry\<close> starts.
\<close>

definition ht_set_grow :: "bool \<Rightarrow> mem \<Rightarrow> ht \<Rightarrow> fault + (mem \<times> ht) option" where
  "ht_set_grow calloc_ok m t =
     (if length_ht t \<ge> capacity t div 2 then
        (case ht_expand calloc_ok m t of
           Inl f \<Rightarrow> Inl f
         | Inr (ok, m', t') \<Rightarrow> if \<not> ok then Inr None else Inr (Some (m', t')))
      else Inr (Some (m, t)))"

text \<open>
  \<^verbatim>\<open>ht_set\<close> returns 0 or -1. The \<^verbatim>\<open>assert(value != NULL)\<close> before the test of the value
  is compiled out (\<^verbatim>\<open>NDEBUG\<close>); the test itself returns -1.
\<close>

definition ht_set ::
  "bool \<Rightarrow> bool \<Rightarrow> mem \<Rightarrow> ht \<Rightarrow> string \<Rightarrow> voidp \<Rightarrow> fault + (int \<times> mem \<times> ht)" where
  "ht_set calloc_ok strdup_ok m t k v =
     (if v = NULL then Inr (- 1, m, t)
      else
        (case ht_set_grow calloc_ok m t of
           Inl f \<Rightarrow> Inl f
         | Inr None \<Rightarrow> Inr (- 1, m, t)
         | Inr (Some (m1, t1)) \<Rightarrow>
             (case ht_set_entry strdup_ok m1 (entries t1) (capacity t1) (Lit k) v
                     (Some (length_ht t1)) of
                Inl f \<Rightarrow> Inl f
              | Inr (ret, m2, es2, pl) \<Rightarrow>
                  Inr (if ret \<noteq> None then 0 else - 1, m2,
                       t1\<lparr>entries := es2,
                          length_ht := (case pl of Some n \<Rightarrow> n | None \<Rightarrow> length_ht t1)\<rparr>))))"

definition ht_length :: "ht \<Rightarrow> size_t" where
  "ht_length t = length_ht t"

subsection \<open>The cursor\<close>

text \<open>
  Modelled from the spec: the struct \<^verbatim>\<open>hti\<close> is declared in \<^verbatim>\<open>ht.h\<close>, which is not among
  the sources; its fields are those \<^verbatim>\<open>ht.c\<close> uses (\<open>key\<close>, \<open>value\<close>, \<open>_table\<close>, \<open>_index\<close>).
  The reference \<open>_table\<close> is the table passed to \<open>ht_next\<close>. \<^verbatim>\<open>ht_iterator\<close> leaves \<open>key\<close>
  and \<open>value\<close> uninitialised; the model puts the null pointer there.
\<close>

record hti =
  it_key :: "cptr option"
  it_value :: voidp
  it_index :: nat

definition ht_iterator :: "ht \<Rightarrow> hti" where
  "ht_iterator t = \<lparr>it_key = None, it_value = NULL, it_index = 0\<rparr>"

function ht_next :: "ht \<Rightarrow> hti \<Rightarrow> fault + (bool \<times> hti)" where
  "ht_next t it =
     (if it_index it < unat (capacity t) then
        (let i = it_index it; it1 = it\<lparr>it_index := it_index it + 1\<rparr> in
         if i < length (entries t) then
           (if key (entries t ! i) \<noteq> None
            then Inr (True, it1\<lparr>it_key := key (entries t ! i), it_value := val (entries t ! i)\<rparr>)
            else ht_next t it1)
         else Inl OutOfBounds)
      else Inr (False, it))"
  by pat_completeness auto
termination
  by (relation "measure (\<lambda>(t, it). unat (capacity t) - it_index it)") auto

declare ht_next.simps [simp del]

subsection \<open>Removal\<close>

text \<open>
  The \<^verbatim>\<open>while\<close> loop of \<^verbatim>\<open>ht_remove\<close>. Nothing in its body changes \<open>index\<close> or the table,
  so it may run forever: the result \<open>None\<close> means that the call does not return.
\<close>

partial_function (option) ht_remove_loop ::
  "mem \<Rightarrow> ht \<Rightarrow> string \<Rightarrow> nat \<Rightarrow> (fault + (int \<times> mem \<times> ht option)) option" where
  "ht_remove_loop m t k index =
     (if index < unat (capacity t) \<and> index < length (entries t) then
        (case key (entries t ! index) of
           None \<Rightarrow> Some (Inr (- 1, m, Some t))
         | Some p \<Rightarrow>
             (case deref m p of
                Inl f \<Rightarrow> Some (Inl f)
              | Inr s \<Rightarrow>
                  if strcmp_eq k s then
                    (case free m p of
                       Inl f \<Rightarrow> Some (Inl f)
                     | Inr m' \<Rightarrow> Some (Inr (0, m', Some (t\<lparr>length_ht := length_ht t - 1\<rparr>))))
                  else ht_remove_loop m t k index))
      else Some (Inl OutOfBounds))"

text \<open>
  \<^verbatim>\<open>ht_remove(table, key)\<close>; the table argument may be the null pointer (\<open>None\<close>). The
  result is \<open>None\<close> when the call does not return, otherwise the returned \<^verbatim>\<open>int\<close> with the
  store and the table after the call.
\<close>

definition ht_remove ::
  "mem \<Rightarrow> ht option \<Rightarrow> string \<Rightarrow> (fault + (int \<times> mem \<times> ht option)) option" where
  "ht_remove m table k =
     (case table of
        None \<Rightarrow> Some (Inr (- 1, m, None))
      | Some t \<Rightarrow>
          (let index = slot_index k (capacity t) in
           if index < unat (capacity t) \<and> index < length (entries t) then
             (if key (entries t ! index) = None then Some (Inr (- 1, m, Some t))
              else ht_remove_loop m t k index)
           else Some (Inl OutOfBounds)))"

declare ht_remove_loop.simps [code]

section \<open>Runs, invariants and example tables\<close>

text \<open>
  The tables a program can build: \<^verbatim>\<open>ht_create\<close>, then calls of \<^verbatim>\<open>ht_set\<close> and
  \<^verbatim>\<open>ht_remove\<close> that return without a fault, whatever the allocator answers.
  (\<^verbatim>\<open>ht_get\<close>, \<^verbatim>\<open>ht_length\<close> and \<^verbatim>\<open>ht_next\<close> do not change the table.)
\<close>

inductive reachable :: "mem \<Rightarrow> ht \<Rightarrow> bool" where
  create: "ht_create malloc_ok calloc_ok mutex_ok = Some t \<Longrightarrow> reachable m t"
| set: "reachable m t \<Longrightarrow> ht_set calloc_ok strdup_ok m t k v = Inr (r, m', t')
         \<Longrightarrow> reachable m' t'"
| remove: "reachable m t \<Longrightarrow> ht_remove m (Some t) k = Some (Inr (r, m', Some t'))
         \<Longrightarrow> reachable m' t'"

text \<open>A run of \<^verbatim>\<open>ht_set\<close> over a list of pairs, every allocation succeeding.\<close>

fun ht_set_all :: "mem \<Rightarrow> ht \<Rightarrow> (string \<times> voidp) list \<Rightarrow> fault + (int list \<times> mem \<times> ht)" where
  "ht_set_all m t [] = Inr ([], m, t)"
| "ht_set_all m t ((k, v) # kvs) =
     (case ht_set True True m t k v of
        Inl f \<Rightarrow> Inl f
      | Inr (r, m', t') \<Rightarrow>
          (case ht_set_all m' t' kvs of
             Inl f \<Rightarrow> Inl f
           | Inr (rs, m'', t'') \<Rightarrow> Inr (r # rs, m'', t'')))"

text \<open>The pointer can be read: it is a caller's string or a live block.\<close>

definition readable :: "mem \<Rightarrow> cptr \<Rightarrow> bool" where
  "readable m p = (case deref m p of Inl f \<Rightarrow> False | Inr s \<Rightarrow> True)"

definition live_entry :: "mem \<Rightarrow> ht_entry \<Rightarrow> bool" where
  "live_entry m e = (case key e of None \<Rightarrow> False | Some p \<Rightarrow> readable m p)"

definition occupied :: "ht_entry \<Rightarrow> bool" where
  "occupied e = (key e \<noteq> None)"

text \<open>
  The string of a live block hashes to the slot \<open>i\<close>; nothing is said of a freed block.
\<close>

fun at_home :: "block \<Rightarrow> size_t \<Rightarrow> nat \<Rightarrow> bool" where
  "at_home (Live s) cap i = (slot_index s cap = i)"
| "at_home (Freed s) cap i = True"

text \<open>
  Every occupied slot holds a pointer to a block of the store, and when that block is
  live (the key has not been freed) its string hashes to the slot.
\<close>

definition home_slots :: "mem \<Rightarrow> ht_entry list \<Rightarrow> size_t \<Rightarrow> bool" where
  "home_slots m es cap \<longleftrightarrow>
     (\<forall>i<length es. case key (es ! i) of
         None \<Rightarrow> True
       | Some (Lit s) \<Rightarrow> False
       | Some (Heap a) \<Rightarrow> a < length m \<and> at_home (m ! a) cap i)"

definition ht_inv :: "mem \<Rightarrow> ht \<Rightarrow> bool" where
  "ht_inv m t \<longleftrightarrow>
     (\<exists>n. 4 \<le> n \<and> n < 64 \<and> capacity t = 2 ^ n) \<and>
     length (entries t) = unat (capacity t) \<and>
     home_slots m (entries t) (capacity t) \<and>
     length (filter (live_entry m) (entries t)) \<le> unat (length_ht t) \<and>
     unat (length_ht t) \<le> unat (capacity t) div 2"

text \<open>The slot the key hashes to holds a readable key equal to \<open>k\<close>, with the value \<open>v\<close>.\<close>

definition holds :: "mem \<Rightarrow> ht_entry list \<Rightarrow> size_t \<Rightarrow> string \<Rightarrow> voidp \<Rightarrow> bool" where
  "holds m es cap k v \<longleftrightarrow>
     slot_index k cap < length es \<and> slot_index k cap < unat cap \<and>
     (case key (es ! slot_index k cap) of
        None \<Rightarrow> False
      | Some p \<Rightarrow> (case deref m p of Inl f \<Rightarrow> False | Inr s \<Rightarrow> strcmp_eq k s)) \<and>
     val (es ! slot_index k cap) = v"

text \<open>The loop of \<^verbatim>\<open>ht_remove\<close> is at an occupied slot whose key is readable and differs.\<close>

definition stuck :: "mem \<Rightarrow> ht \<Rightarrow> string \<Rightarrow> nat \<Rightarrow> bool" where
  "stuck m t k index \<longleftrightarrow>
     index < unat (capacity t) \<and> index < length (entries t) \<and>
     (case key (entries t ! index) of
        None \<Rightarrow> False
      | Some p \<Rightarrow> (case deref m p of Inl f \<Rightarrow> False | Inr s \<Rightarrow> \<not> strcmp_eq k s))"

text \<open>
  The tables built from \<^verbatim>\<open>ht_create\<close> by calls of \<^verbatim>\<open>ht_set\<close> that all return 0, with
  the keys set (the last one first).
\<close>

inductive set_run :: "mem \<Rightarrow> ht \<Rightarrow> string list \<Rightarrow> bool" where
  start: "ht_create malloc_ok calloc_ok mutex_ok = Some t \<Longrightarrow> set_run m t []"
| step: "set_run m t ks \<Longrightarrow> ht_set calloc_ok strdup_ok m t k v = Inr (0, m', t')
         \<Longrightarrow> set_run m' t' (k # ks)"

text \<open>Every readable key of the entries is one of the strings of \<open>K\<close>.\<close>

definition stored_in :: "mem \<Rightarrow> ht_entry list \<Rightarrow> string set \<Rightarrow> bool" where
  "stored_in m es K \<longleftrightarrow>
     (\<forall>e\<in>set es. case key e of
         None \<Rightarrow> True
       | Some p \<Rightarrow> (case deref m p of Inl f \<Rightarrow> True | Inr s \<Rightarrow> c_str s \<in> K))"

text \<open>
  Example tables. The 64-bit FNV-1a hashes of the one-letter keys used below end in
  \<open>a\<close>: 12, \<open>b\<close>: 5, \<open>c\<close>: 2 (18), \<open>d\<close>: 3 (19), \<open>e\<close>: 0, \<open>f\<close>: 9 (25), \<open>g\<close>: 6, \<open>h\<close>: 7 (23),
  \<open>i\<close>: 4, \<open>q\<close>: 12 (28) modulo 16 (modulo 32 where it differs).
\<close>

definition slot :: "nat \<Rightarrow> voidp \<Rightarrow> ht_entry" where
  "slot a v = \<lparr>key = Some (Heap a), val = v\<rparr>"

definition tbl_empty :: ht where
  "tbl_empty = \<lparr>entries = calloc_entries 16, capacity = 16, length_ht = 0\<rparr>"

definition tbl_a :: ht where
  "tbl_a = \<lparr>entries = (calloc_entries 16)[12 := slot 0 1], capacity = 16, length_ht = 1\<rparr>"

definition tbl_aq :: ht where
  "tbl_aq = \<lparr>entries = (calloc_entries 16)[12 := slot 1 2], capacity = 16, length_ht = 2\<rparr>"

definition tbl_abc :: ht where
  "tbl_abc = \<lparr>entries = (calloc_entries 16)[12 := slot 0 1, 5 := slot 1 2, 2 := slot 2 3],
              capacity = 16, length_ht = 3\<rparr>"

definition mem_a_to_h :: mem where
  "mem_a_to_h = [Live ''a'', Live ''b'', Live ''c'', Live ''d'', Live ''e'', Live ''f'',
                 Live ''g'', Live ''h'']"

definition tbl_a_to_h :: ht where
  "tbl_a_to_h =
     \<lparr>entries = (calloc_entries 16)[12 := slot 0 1, 5 := slot 1 2, 2 := slot 2 3, 3 := slot 3 4,
                   0 := slot 4 5, 9 := slot 5 6, 6 := slot 6 7, 7 := slot 7 8],
      capacity = 16, length_ht = 8\<rparr>"

definition tbl_a_to_h_grown :: ht where
  "tbl_a_to_h_grown =
     \<lparr>entries = (calloc_entries 32)[12 := slot 0 1, 5 := slot 1 2, 18 := slot 2 3, 19 := slot 3 4,
                   0 := slot 4 5, 25 := slot 5 6, 6 := slot 6 7, 23 := slot 7 8],
      capacity = 32, length_ht = 8\<rparr>"

definition mem_aq_to_h :: mem where
  "mem_aq_to_h = [Live ''a'', Live ''q'', Live ''b'', Live ''c'', Live ''d'', Live ''e'',
                  Live ''f'', Live ''g'', Live ''h'']"

definition tbl_aq_to_h :: ht where
  "tbl_aq_to_h =
     \<lparr>entries = (calloc_entries 32)[28 := slot 1 2, 5 := slot 2 3, 18 := slot 3 4, 19 := slot 4 5,
                   0 := slot 5 6, 25 := slot 6 7, 6 := slot 7 8, 23 := slot 8 9],
      capacity = 32, length_ht = 9\<rparr>"

text \<open>
  The loop of \<^verbatim>\<open>ht_expand\<close>, about to treat the old slot \<open>i\<close> of \<open>c\<close> old slots: the new
  array has \<open>2 * c\<close> slots, every occupied new slot \<open>j\<close> is a copy of the old slot
  \<open>j mod c\<close>, which has been treated, every treated old slot is found at the slot its key
  hashes to, and the new array has no more occupied slots than were treated.
\<close>

definition expand_inv :: "mem \<Rightarrow> ht_entry list \<Rightarrow> nat \<Rightarrow> size_t \<Rightarrow> nat \<Rightarrow> ht_entry list \<Rightarrow> bool" where
  "expand_inv m old c new_capacity i new \<longleftrightarrow>
     length new = 2 * c \<and>
     home_slots m new new_capacity \<and>
     (\<forall>j<2 * c. occupied (new ! j) \<longrightarrow> j mod c < i \<and> new ! j = old ! (j mod c)) \<and>
     (\<forall>i'<i. occupied (old ! i') \<longrightarrow>
        (\<exists>a s. key (old ! i') = Some (Heap a) \<and> a < length m \<and> m ! a = Live s \<and>
           new ! slot_index s new_capacity = old ! i')) \<and>
     length (filter occupied new) \<le> length (filter occupied (take i old))"

definition mem_abc :: mem where
  "mem_abc = [Live ''a'', Live ''b'', Live ''c'']"

definition mem_abc_removed :: mem where
  "mem_abc_removed = [Freed ''a'', Live ''b'', Live ''c'']"

definition tbl_abc_removed :: ht where
  "tbl_abc_removed = tbl_abc\<lparr>length_ht := 2\<rparr>"

definition tbl_a_to_h_set_a :: "voidp \<Rightarrow> ht" where
  "tbl_a_to_h_set_a v = tbl_a_to_h_grown\<lparr>entries := (entries tbl_a_to_h_grown)[12 := slot 0 v]\<rparr>"

section \<open>Strings, hashes and slot indices\<close>

lemma c_str_idem: "c_str (c_str s) = c_str s"
  by (simp add: c_str_def)

lemma strcmp_eq_c_str: "strcmp_eq k (c_str k)"
  by (simp add: strcmp_eq_def c_str_idem)

lemma hash_loop_c_str: "hash_loop h (c_str s) = hash_loop h s"
  by (induction s arbitrary: h) (auto simp: c_str_def)

lemma hash_key_c_str: "hash_key (c_str s) = hash_key s"
  by (simp add: hash_key_def hash_loop_c_str)

lemma strcmp_eq_hash: "strcmp_eq a b \<Longrightarrow> hash_key a = hash_key b"
  by (metis hash_key_c_str strcmp_eq_def)

lemma strcmp_eq_slot: "strcmp_eq a b \<Longrightarrow> slot_index a cap = slot_index b cap"
  by (simp add: slot_index_def strcmp_eq_hash)

lemma unat_pow2:
  assumes "n < 64"
  shows "unat (2 ^ n :: 64 word) = 2 ^ n"
proof -
  have "(2 ^ n :: 64 word) = of_nat (2 ^ n)" by simp
  then have "unat (2 ^ n :: 64 word) = take_bit 64 (2 ^ n :: nat)"
    by (simp only: unsigned_of_nat) simp
  also have "\<dots> = 2 ^ n"
    using assms by (simp add: take_bit_nat_eq_self)
  finally show ?thesis .
qed

lemma slot_index_pow2:
  assumes "n < 64"
  shows "slot_index k (2 ^ n) = unat (hash_key k) mod 2 ^ n"
proof -
  have "(2 ^ n - 1 :: 64 word) = mask n"
    by (simp add: mask_eq_decr_exp)
  then have "hash_key k AND (2 ^ n - 1) = take_bit n (hash_key k)"
    by (simp add: take_bit_eq_mask)
  then have "slot_index k (2 ^ n) = take_bit n (unat (hash_key k))"
    by (simp only: slot_index_def unsigned_take_bit_eq)
  then show ?thesis
    by (simp only: take_bit_eq_mod)
qed

lemma slot_index_less: "n < 64 \<Longrightarrow> slot_index k (2 ^ n) < 2 ^ n"
  by (simp add: slot_index_pow2)

lemma slot_index_double:
  assumes "Suc n < 64"
  shows "slot_index k (2 ^ Suc n) mod 2 ^ n = slot_index k (2 ^ n)"
proof -
  have "n < 64" using assms by simp
  have "(2::nat) ^ n dvd 2 ^ Suc n" by simp
  then show ?thesis
    using slot_index_pow2 [OF assms] slot_index_pow2 [OF \<open>n < 64\<close>]
    by (simp only: mod_mod_cancel)
qed

lemma double_overflow:
  assumes "n < 64"
  shows "(2 ^ n :: 64 word) * 2 < 2 ^ n \<longleftrightarrow> n = 63"
proof (cases "n = 63")
  case True
  then show ?thesis by simp
next
  case False
  then have "Suc n < 64" using assms by simp
  then have "unat (2 ^ Suc n :: 64 word) = 2 ^ Suc n" by (rule unat_pow2)
  moreover have "unat (2 ^ n :: 64 word) = 2 ^ n" using assms by (rule unat_pow2)
  moreover have "(2 ^ n :: 64 word) * 2 = 2 ^ Suc n" by simp
  ultimately have "\<not> (2 ^ n :: 64 word) * 2 < 2 ^ n"
    by (simp only: word_less_nat_alt) simp
  then show ?thesis
    using False by simp
qed

section \<open>The probe loops\<close>

lemma set_loop_result:
  assumes "ht_set_entry_loop m es cap k v index i = Inr r"
  shows "index < unat cap \<and> i < unat cap \<and> i < length es \<and>
    (case r of
       EmptyAt j \<Rightarrow> j < length es \<and> j < unat cap \<and> key (es ! j) = None
     | Returned None es' \<Rightarrow> es' = es
     | Returned (Some p) es' \<Rightarrow>
         (\<exists>j s. j < length es \<and> j < unat cap \<and> key (es ! j) = Some p \<and> deref m p = Inr s \<and>
                strcmp_eq k s \<and> es' = es[j := (es ! j)\<lparr>val := v\<rparr>]))"
  using assms
proof (induction m es cap k v index i rule: ht_set_entry_loop.induct)
  case (1 m es cap k v index i)
  note step = ht_set_entry_loop.simps [of m es cap k v index i]
  from "1.prems" have guard: "index < unat cap \<and> i < unat cap \<and> i < length es"
    by (subst (asm) step) (simp split: if_splits)
  show ?case
  proof (cases "key (es ! i)")
    case None
    with "1.prems" guard have "r = EmptyAt i"
      by (subst (asm) step) auto
    with guard None show ?thesis by simp
  next
    case (Some p)
    show ?thesis
    proof (cases "deref m p")
      case (Inl f)
      with "1.prems" guard Some show ?thesis
        by (subst (asm) step) simp
    next
      case (Inr s)
      show ?thesis
      proof (cases "strcmp_eq k s")
        case True
        with "1.prems" guard Some Inr have "r = Returned (Some p) (es[i := (es ! i)\<lparr>val := v\<rparr>])"
          by (subst (asm) step) auto
        with guard Some Inr True show ?thesis by auto
      next
        case False
        show ?thesis
        proof (cases "next_slot cap i = index")
          case True
          with "1.prems" guard Some Inr False have "r = Returned None es"
            by (subst (asm) step) auto
          with guard show ?thesis by simp
        next
          case nowrap: False
          with "1.prems" guard Some Inr False
          have "ht_set_entry_loop m es cap k v index (next_slot cap i) = Inr r"
            by (subst (asm) step) auto
          from "1.IH" [OF _ Some Inr False nowrap this] guard show ?thesis by simp
        qed
      qed
    qed
  qed
qed

lemma set_loop_hit:
  assumes "index < unat cap" and "index < length es"
    and "key (es ! index) = Some p" and "deref m p = Inr s" and "strcmp_eq k s"
  shows "ht_set_entry_loop m es cap k v index index
           = Inr (Returned (Some p) (es[index := (es ! index)\<lparr>val := v\<rparr>]))"
  using assms by (subst ht_set_entry_loop.simps) simp

lemma set_loop_empty:
  assumes "index < unat cap" and "index < length es" and "key (es ! index) = None"
  shows "ht_set_entry_loop m es cap k v index index = Inr (EmptyAt index)"
  using assms by (subst ht_set_entry_loop.simps) simp

lemma get_loop_hit:
  assumes "index < unat (capacity t)" and "index < length (entries t)"
    and "key (entries t ! index) = Some p" and "deref m p = Inr s" and "strcmp_eq k s"
  shows "ht_get_loop m t k index index = Inr (val (entries t ! index))"
  using assms by (subst ht_get_loop.simps) simp

lemma get_holds:
  assumes "holds m (entries t) (capacity t) k v"
  shows "ht_get m t k = Inr v"
proof -
  let ?i = "slot_index k (capacity t)"
  from assms obtain p s where "?i < length (entries t)" "?i < unat (capacity t)"
    "key (entries t ! ?i) = Some p" "deref m p = Inr s" "strcmp_eq k s" "val (entries t ! ?i) = v"
    by (auto simp: holds_def split: option.splits sum.splits)
  then show ?thesis
    by (simp add: ht_get_def get_loop_hit)
qed

text \<open>The three ways \<^verbatim>\<open>ht_set_entry\<close> returns when it is called by \<^verbatim>\<open>ht_set\<close>.\<close>

lemma set_entry_cases:
  assumes "ht_set_entry ok m es cap (Lit k) v (Some n) = Inr (ret, m', es', pl)"
  shows "slot_index k cap < unat cap \<and> slot_index k cap < length es \<and>
    ((ret = None \<and> m' = m \<and> es' = es \<and> pl = Some n) \<or>
     (\<exists>p j s. ret = Some p \<and> m' = m \<and> pl = Some n \<and> j < length es \<and> j < unat cap \<and>
        key (es ! j) = Some p \<and> deref m p = Inr s \<and> strcmp_eq k s \<and>
        es' = es[j := (es ! j)\<lparr>val := v\<rparr>]) \<or>
     (ok \<and> ret = Some (Heap (length m)) \<and> m' = m @ [Live (c_str k)] \<and> pl = Some (n + 1) \<and>
        es' = es[slot_index k cap := \<lparr>key = Some (Heap (length m)), val = v\<rparr>]))"
proof -
  let ?i = "slot_index k cap"
  from assms obtain r where r: "ht_set_entry_loop m es cap k v ?i ?i = Inr r"
    by (auto simp: ht_set_entry_def Let_def split: sum.splits)
  note L = set_loop_result [OF r]
  show ?thesis
  proof (cases r)
    case (Returned ret0 es0)
    with assms r have "ret = ret0" "m' = m" "es' = es0" "pl = Some n"
      by (auto simp: ht_set_entry_def Let_def)
    with L Returned show ?thesis
      by (cases ret0) auto
  next
    case (EmptyAt j)
    with assms r EmptyAt L show ?thesis
      by (auto simp: ht_set_entry_def Let_def strdup_def split: if_splits)
  qed
qed

text \<open>The loop of \<^verbatim>\<open>ht_remove\<close> returns nothing when it is stuck.\<close>

lemma ht_remove_loop_never:
  assumes "ht_remove_loop m t k index = Some y"
  shows "\<not> stuck m t k index"
proof (rule ht_remove_loop.raw_induct
    [where P = "\<lambda>m t k index y. \<not> stuck m t k index", OF _ assms])
  fix f m t k index y
  assume IH: "\<And>m t k index y. f m t k index = Some y \<Longrightarrow> \<not> stuck m t k index"
    and *: "(if index < unat (capacity t) \<and> index < length (entries t)
      then case key (entries t ! index) of
           None \<Rightarrow> Some (Inr (- 1, m, Some t))
           | Some p \<Rightarrow>
               case deref m p of Inl f \<Rightarrow> Some (Inl f)
               | Inr s \<Rightarrow>
                   if strcmp_eq k s
                   then case free m p of Inl f \<Rightarrow> Some (Inl f)
                        | Inr m' \<Rightarrow> Some (Inr (0, m', Some (t\<lparr>length_ht := length_ht t - 1\<rparr>)))
                   else f m t k index
      else Some (Inl OutOfBounds)) = Some y"
  show "\<not> stuck m t k index"
  proof
    assume s: "stuck m t k index"
    then have "f m t k index = Some y"
      using * by (auto simp: stuck_def split: option.splits sum.splits)
    from IH [OF this] s show False by simp
  qed
qed

lemma ht_remove_loop_diverges:
  assumes "stuck m t k index"
  shows "ht_remove_loop m t k index = None"
proof (cases "ht_remove_loop m t k index")
  case None
  then show ?thesis .
next
  case (Some y)
  from ht_remove_loop_never [OF Some] assms show ?thesis by simp
qed

section \<open>Counting slots\<close>

lemma filter_update_le: "length (filter P (xs[i := x])) \<le> Suc (length (filter P xs))"
proof (induction xs arbitrary: i)
  case Nil
  then show ?case by simp
next
  case (Cons y ys)
  then show ?case
    by (cases i) (auto simp: le_SucI)
qed

lemma filter_le:
  assumes "\<And>x. x \<in> set xs \<Longrightarrow> P x \<Longrightarrow> Q x"
  shows "length (filter P xs) \<le> length (filter Q xs)"
  using assms
proof (induction xs)
  case Nil
  then show ?case by simp
next
  case (Cons y ys)
  then have "length (filter P ys) \<le> length (filter Q ys)" by simp
  with Cons.prems [of y] show ?case by auto
qed

lemma filter_less:
  assumes "\<And>x. x \<in> set xs \<Longrightarrow> P x \<Longrightarrow> Q x" and "\<exists>x\<in>set xs. Q x \<and> \<not> P x"
  shows "length (filter P xs) < length (filter Q xs)"
  using assms
proof (induction xs)
  case Nil
  then show ?case by simp
next
  case (Cons y ys)
  have le: "length (filter P ys) \<le> length (filter Q ys)"
    using Cons.prems(1) by (intro filter_le) simp
  show ?case
  proof (cases "Q y \<and> \<not> P y")
    case True
    with le show ?thesis by auto
  next
    case False
    with Cons.prems(2) have "\<exists>x\<in>set ys. Q x \<and> \<not> P x" by auto
    with Cons.IH Cons.prems(1) have "length (filter P ys) < length (filter Q ys)" by auto
    with Cons.prems(1) [of y] show ?thesis by auto
  qed
qed

lemma home_slotsD:
  assumes "home_slots m es cap" and "i < length es" and "key (es ! i) = Some p"
  shows "\<exists>a. p = Heap a \<and> a < length m \<and> at_home (m ! a) cap i"
proof -
  from assms(1,2) have "case key (es ! i) of None \<Rightarrow> True | Some (Lit s) \<Rightarrow> False
     | Some (Heap a) \<Rightarrow> a < length m \<and> at_home (m ! a) cap i"
    by (simp add: home_slots_def)
  with assms(3) show ?thesis
    by (cases p) simp_all
qed



lemma set_entry_expand_cases:
  assumes "ht_set_entry ok m es cap kp v None = Inr (ret, m', es', pl)"
  obtains s where "deref m kp = Inr s" and "m' = m"
    and "key (es ! slot_index s cap) = None \<Longrightarrow>
           es' = es[slot_index s cap := \<lparr>key = Some kp, val = v\<rparr>]"
proof -
  from assms obtain s where s: "deref m kp = Inr s"
    by (auto simp: ht_set_entry_def split: sum.splits)
  let ?i = "slot_index s cap"
  from assms s obtain r where r: "ht_set_entry_loop m es cap s v ?i ?i = Inr r"
    by (auto simp: ht_set_entry_def Let_def split: sum.splits)
  from set_loop_result [OF r] have b: "?i < unat cap" "?i < length es" by auto
  have m: "m' = m"
    using assms s r by (cases r) (auto simp: ht_set_entry_def Let_def)
  have "es' = es[?i := \<lparr>key = Some kp, val = v\<rparr>]" if "key (es ! ?i) = None"
  proof -
    from set_loop_empty [OF b that] r have "r = EmptyAt ?i" by simp
    with assms s r show ?thesis
      by (auto simp: ht_set_entry_def Let_def)
  qed
  with s m show ?thesis
    by (rule that)
qed

section \<open>Growth keeps every entry\<close>

lemma deref_HeapD:
  assumes "deref m (Heap a) = Inr s"
  shows "a < length m \<and> m ! a = Live s"
  using assms by (auto split: if_splits block.splits)

lemma expand_inv_skip:
  assumes "expand_inv m old c nc i new" and "i < length old" and "\<not> occupied (old ! i)"
  shows "expand_inv m old c nc (Suc i) new"
proof -
  have "filter occupied (take (Suc i) old) = filter occupied (take i old)"
    using assms(2,3) by (simp add: take_Suc_conv_app_nth)
  moreover have "i' < i" if "i' < Suc i" "occupied (old ! i')" for i'
    using that assms(3) by (cases "i' = i") auto
  ultimately show ?thesis
    using assms(1) unfolding expand_inv_def
    by (metis less_Suc_eq)
qed

lemma expand_inv_step:
  assumes inv: "expand_inv m old (2 ^ n) (2 ^ Suc n) i new"
    and n: "n < 63" and i: "i < 2 ^ n" and len: "length old = 2 ^ n"
    and home: "home_slots m old (2 ^ n)"
    and kp: "key (old ! i) = Some kp" and s: "deref m kp = Inr s"
  shows "key (new ! slot_index s (2 ^ Suc n)) = None"
    and "expand_inv m old (2 ^ n) (2 ^ Suc n) (Suc i) (new[slot_index s (2 ^ Suc n) := old ! i])"
proof -
  let ?h = "slot_index s (2 ^ Suc n)"
  let ?c = "(2::nat) ^ n"
  from n have n1: "Suc n < 64" and n0: "n < 64" by simp_all
  from home i len kp obtain a where a: "kp = Heap a" "a < length m"
      "at_home (m ! a) (2 ^ n) i"
    using home_slotsD [of m old "2 ^ n" i kp] by auto
  from s a have live: "m ! a = Live s" using deref_HeapD by blast
  with a have si: "slot_index s (2 ^ n) = i" by simp
  have h_less: "?h < 2 * ?c"
    using slot_index_less [OF n1, of s] by simp
  have h_mod: "?h mod ?c = i"
    using slot_index_double [OF n1, of s] si by simp
  from inv have lnew: "length new = 2 * ?c"
    and hnew: "home_slots m new (2 ^ Suc n)"
    and bwd: "\<And>j. j < 2 * ?c \<Longrightarrow> occupied (new ! j) \<Longrightarrow> j mod ?c < i \<and> new ! j = old ! (j mod ?c)"
    and fwd: "\<And>i'. i' < i \<Longrightarrow> occupied (old ! i') \<Longrightarrow>
        \<exists>a s. key (old ! i') = Some (Heap a) \<and> a < length m \<and> m ! a = Live s \<and>
           new ! slot_index s (2 ^ Suc n) = old ! i'"
    and cnt: "length (filter occupied new) \<le> length (filter occupied (take i old))"
    by (simp_all add: expand_inv_def)
  show empty: "key (new ! ?h) = None"
  proof (rule ccontr)
    assume "key (new ! ?h) \<noteq> None"
    then have "occupied (new ! ?h)" by (simp add: occupied_def)
    from bwd [OF h_less this] h_mod show False by simp
  qed
  let ?new = "new[?h := old ! i]"
  have 1: "length ?new = 2 * ?c" using lnew by simp
  have 2: "home_slots m ?new (2 ^ Suc n)"
    unfolding home_slots_def
  proof (intro allI impI)
    fix j assume j: "j < length ?new"
    show "case key (?new ! j) of None \<Rightarrow> True | Some (Lit s) \<Rightarrow> False
       | Some (Heap a) \<Rightarrow> a < length m \<and> at_home (m ! a) (2 ^ Suc n) j"
    proof (cases "j = ?h")
      case True
      with j kp a live show ?thesis by simp
    next
      case False
      from j hnew have "case key (new ! j) of None \<Rightarrow> True | Some (Lit s) \<Rightarrow> False
       | Some (Heap a) \<Rightarrow> a < length m \<and> at_home (m ! a) (2 ^ Suc n) j"
        by (simp only: home_slots_def length_list_update)
      moreover from False have "?new ! j = new ! j" by simp
      ultimately show ?thesis by (simp only:)
    qed
  qed
  have 3: "j mod ?c < Suc i \<and> ?new ! j = old ! (j mod ?c)"
    if "j < 2 * ?c" "occupied (?new ! j)" for j
  proof (cases "j = ?h")
    case True
    with h_mod h_less lnew show ?thesis by simp
  next
    case False
    with that bwd [of j] show ?thesis by (simp add: less_Suc_eq)
  qed
  have 4: "\<exists>a s. key (old ! i') = Some (Heap a) \<and> a < length m \<and> m ! a = Live s \<and>
           ?new ! slot_index s (2 ^ Suc n) = old ! i'"
    if "i' < Suc i" "occupied (old ! i')" for i'
  proof (cases "i' = i")
    case True
    with kp a live h_less lnew show ?thesis by simp
  next
    case False
    with that have lt: "i' < i" by simp
    from fwd [OF lt that(2)] obtain a' s' where a': "key (old ! i') = Some (Heap a')"
      "a' < length m" "m ! a' = Live s'" "new ! slot_index s' (2 ^ Suc n) = old ! i'"
      by blast
    from lt i len have "i' < length old" by simp
    from home_slotsD [OF home this a'(1)] a'(3) have "slot_index s' (2 ^ n) = i'" by simp
    with slot_index_double [OF n1, of s'] have "slot_index s' (2 ^ Suc n) mod ?c = i'" by simp
    with h_mod False have "slot_index s' (2 ^ Suc n) \<noteq> ?h" by auto
    with a' show ?thesis by simp
  qed
  have 5: "length (filter occupied ?new) \<le> length (filter occupied (take (Suc i) old))"
  proof -
    have "length (filter occupied ?new) \<le> Suc (length (filter occupied new))"
      by (rule filter_update_le)
    also have "\<dots> \<le> Suc (length (filter occupied (take i old)))"
      using cnt by simp
    also have "\<dots> = length (filter occupied (take (Suc i) old))"
      using i len kp by (simp add: take_Suc_conv_app_nth occupied_def)
    finally show ?thesis .
  qed
  show "expand_inv m old ?c (2 ^ Suc n) (Suc i) ?new"
    unfolding expand_inv_def
  proof (intro conjI allI impI)
    show "length ?new = 2 * ?c" by (rule 1)
    show "home_slots m ?new (2 ^ Suc n)" by (rule 2)
    show "length (filter occupied ?new) \<le> length (filter occupied (take (Suc i) old))"
      by (rule 5)
  next
    fix j assume "j < 2 * ?c" "occupied (?new ! j)"
    from 3 [OF this] show "j mod ?c < Suc i" and "?new ! j = old ! (j mod ?c)"
      by simp_all
  next
    fix i' assume "i' < Suc i" "occupied (old ! i')"
    from 4 [OF this] show "\<exists>a s. key (old ! i') = Some (Heap a) \<and> a < length m \<and>
        m ! a = Live s \<and> ?new ! slot_index s (2 ^ Suc n) = old ! i'" .
  qed
qed

lemma expand_loop_inv:
  assumes "ht_expand_loop m t new nc i = Inr (m', new')"
    and "n < 63" and "capacity t = 2 ^ n" and "nc = 2 ^ Suc n"
    and "length (entries t) = 2 ^ n"
    and "home_slots m (entries t) (2 ^ n)"
    and "expand_inv m (entries t) (2 ^ n) nc i new"
  shows "m' = m \<and> (\<exists>i'\<ge>2 ^ n. expand_inv m (entries t) (2 ^ n) nc i' new')"
  using assms
proof (induction m t new nc i rule: ht_expand_loop.induct)
  case (1 m t new nc i)
  note step = ht_expand_loop.simps [of m t new nc i]
  from "1.prems" have cap: "unat (capacity t) = 2 ^ n"
    by (simp add: unat_pow2)
  show ?case
  proof (cases "i < 2 ^ n")
    case False
    with "1.prems"(1) cap have "m' = m" "new' = new"
      by (subst (asm) step; simp)+
    with False "1.prems"(7) show ?thesis
      by (auto intro: exI [of _ i])
  next
    case True
    then have b: "i < unat (capacity t)" "i < length (entries t)"
      using cap "1.prems"(5) by simp_all
    show ?thesis
    proof (cases "key (entries t ! i)")
      case None
      with "1.prems"(1) b have "ht_expand_loop m t new nc (i + 1) = Inr (m', new')"
        by (subst (asm) step) (simp add: Let_def)
      moreover have "expand_inv m (entries t) (2 ^ n) nc (i + 1) new"
        using expand_inv_skip [OF "1.prems"(7) b(2)] None by (simp add: occupied_def)
      ultimately show ?thesis
        using "1.IH"(1) [OF b refl None] "1.prems"(2-6) by blast
    next
      case (Some kp)
      with "1.prems"(1) b obtain ret m1 es1 pl where
        se: "ht_set_entry True m new nc kp (val (entries t ! i)) None = Inr (ret, m1, es1, pl)"
        and rec: "ht_expand_loop m1 t es1 nc (i + 1) = Inr (m', new')"
        by (subst (asm) step) (auto simp: Let_def split: sum.splits)
      show ?thesis
      proof (rule set_entry_expand_cases [OF se])
        fix s
        assume s: "deref m kp = Inr s" "m1 = m"
          and upd: "key (new ! slot_index s nc) = None \<Longrightarrow>
            es1 = new[slot_index s nc := \<lparr>key = Some kp, val = val (entries t ! i)\<rparr>]"
        have inv: "expand_inv m (entries t) (2 ^ n) (2 ^ Suc n) i new"
          using "1.prems"(7,4) by simp
        note st = expand_inv_step [OF inv "1.prems"(2) True "1.prems"(5,6) Some s(1)]
        have e: "\<lparr>key = Some kp, val = val (entries t ! i)\<rparr> = entries t ! i"
          using Some by simp
        from upd st(1) e "1.prems"(4) have es1: "es1 = new[slot_index s nc := entries t ! i]"
          by simp
        with st(2) "1.prems"(4) have "expand_inv m (entries t) (2 ^ n) nc (i + 1) es1"
          by simp
        with "1.IH"(2) [OF b refl Some se refl refl refl] rec s(2) "1.prems"(2-6)
        show ?thesis by blast
      qed
    qed
  qed
qed

lemma live_entry_occupied: "live_entry m e \<Longrightarrow> occupied e"
  by (auto simp: live_entry_def occupied_def split: option.splits)

lemma expand_inv_init:
  assumes "n < 63"
  shows "expand_inv m old (2 ^ n) (2 ^ Suc n) 0 (calloc_entries (2 ^ Suc n))"
proof -
  from assms have "Suc n < 64" by simp
  then have "unat (2 ^ Suc n :: 64 word) = 2 ^ Suc n" by (rule unat_pow2)
  then have l: "length (calloc_entries (2 ^ Suc n)) = 2 * 2 ^ n"
    by (simp add: calloc_entries_def)
  have z: "key (calloc_entries (2 ^ Suc n) ! j) = None" if "j < 2 * 2 ^ n" for j
    using that l by (simp add: calloc_entries_def zero_entry_def)
  have f: "filter occupied (calloc_entries (2 ^ Suc n)) = []"
    by (simp add: calloc_entries_def zero_entry_def occupied_def)
  show ?thesis
    unfolding expand_inv_def
  proof (intro conjI allI impI)
    show "length (calloc_entries (2 ^ Suc n)) = 2 * 2 ^ n" by (rule l)
    show "home_slots m (calloc_entries (2 ^ Suc n)) (2 ^ Suc n)"
      using z l by (simp add: home_slots_def)
    show "length (filter occupied (calloc_entries (2 ^ Suc n))) \<le> length (filter occupied (take 0 old))"
      using f by simp
  next
    fix j assume "j < 2 * 2 ^ n" "occupied (calloc_entries (2 ^ Suc n) ! j)"
    with z show "j mod 2 ^ n < 0" and "calloc_entries (2 ^ Suc n) ! j = old ! (j mod 2 ^ n)"
      by (simp_all add: occupied_def)
  next
    fix i' :: nat assume "i' < 0"
    then show "\<exists>a s. key (old ! i') = Some (Heap a) \<and> a < length m \<and> m ! a = Live s \<and>
        calloc_entries (2 ^ Suc n) ! slot_index s (2 ^ Suc n) = old ! i'" by simp
  qed
qed

lemma ht_invD:
  assumes "ht_inv m t"
  obtains n where "4 \<le> n" and "n < 64" and "capacity t = 2 ^ n"
    and "unat (capacity t) = 2 ^ n" and "length (entries t) = 2 ^ n"
    and "home_slots m (entries t) (2 ^ n)"
    and "length (filter (live_entry m) (entries t)) \<le> unat (length_ht t)"
    and "unat (length_ht t) \<le> 2 ^ n div 2"
proof -
  from assms obtain n where n: "4 \<le> n" "n < 64" "capacity t = 2 ^ n"
    by (auto simp: ht_inv_def)
  then have u: "unat (capacity t) = 2 ^ n" by (simp add: unat_pow2)
  with assms n show ?thesis
    by (intro that [of n]) (simp_all add: ht_inv_def)
qed

lemma ht_invI:
  assumes "4 \<le> n" and "n < 64" and "capacity t = 2 ^ n" and "length (entries t) = 2 ^ n"
    and "home_slots m (entries t) (2 ^ n)"
    and "length (filter (live_entry m) (entries t)) \<le> unat (length_ht t)"
    and "unat (length_ht t) \<le> 2 ^ n div 2"
  shows "ht_inv m t"
proof -
  from assms have u: "unat (capacity t) = 2 ^ n" by (simp add: unat_pow2)
  with assms show ?thesis
    unfolding ht_inv_def by (intro conjI exI [of _ n]) simp_all
qed

lemma ht_expand_final:
  assumes inv: "ht_inv m t" and ex: "ht_expand ok m t = Inr (True, m', t')"
  obtains n i' new' where "4 \<le> n" and "n < 63" and "capacity t = 2 ^ n"
    and "length (entries t) = 2 ^ n" and "m' = m"
    and "t' = t\<lparr>entries := new', capacity := 2 ^ Suc n\<rparr>" and "2 ^ n \<le> i'"
    and "expand_inv m (entries t) (2 ^ n) (2 ^ Suc n) i' new'"
proof -
  from inv obtain n where n: "4 \<le> n" "n < 64" "capacity t = 2 ^ n"
    and len: "length (entries t) = 2 ^ n"
    and home: "home_slots m (entries t) (2 ^ n)"
    by (rule ht_invD)
  have no: "\<not> capacity t * 2 < capacity t"
    using ex by (auto simp: ht_expand_def Let_def split: if_splits)
  with n double_overflow [OF n(2)] have n63: "n < 63" by auto
  have c2: "capacity t * 2 = 2 ^ Suc n" using n(3) by simp
  from ex no c2 obtain new' where
    loop: "ht_expand_loop m t (calloc_entries (2 ^ Suc n)) (2 ^ Suc n) 0 = Inr (m', new')"
    and t': "t' = t\<lparr>entries := new', capacity := 2 ^ Suc n\<rparr>"
    by (auto simp: ht_expand_def Let_def split: if_splits sum.splits)
  from expand_loop_inv [OF loop n63 n(3) refl len home expand_inv_init [OF n63]]
  obtain i' where m: "m' = m" and i': "2 ^ n \<le> i'"
    and X: "expand_inv m (entries t) (2 ^ n) (2 ^ Suc n) i' new'"
    by blast
  show ?thesis by (rule that [OF n(1) n63 n(3) len m t' i' X])
qed

lemma ht_expand_ok:
  assumes inv: "ht_inv m t" and ex: "ht_expand ok m t = Inr (True, m', t')"
  shows "m' = m" and "ht_inv m t'" and "unat (capacity t') = 2 * unat (capacity t)"
    and "length_ht t' = length_ht t"
    and "holds m (entries t) (capacity t) k v \<Longrightarrow> holds m (entries t') (capacity t') k v"
proof -
  from inv ex obtain n i' new' where n4: "4 \<le> n" and n63: "n < 63"
    and cap: "capacity t = 2 ^ n" and len: "length (entries t) = 2 ^ n" and m: "m' = m"
    and t': "t' = t\<lparr>entries := new', capacity := 2 ^ Suc n\<rparr>" and i': "2 ^ n \<le> i'"
    and X: "expand_inv m (entries t) (2 ^ n) (2 ^ Suc n) i' new'"
    by (rule ht_expand_final)
  from n4 n63 cap have n: "4 \<le> n" "n < 64" "capacity t = 2 ^ n" by simp_all
  from n63 have n1: "Suc n < 64" by simp
  have u: "unat (capacity t) = 2 ^ n" using n by (simp add: unat_pow2)
  from inv u cap have home: "home_slots m (entries t) (2 ^ n)"
    and cnt: "length (filter (live_entry m) (entries t)) \<le> unat (length_ht t)"
    and half: "unat (length_ht t) \<le> 2 ^ n div 2"
    by (simp_all add: ht_inv_def)
  from X have lnew: "length new' = 2 * 2 ^ n"
    and hnew: "home_slots m new' (2 ^ Suc n)"
    and fwd: "\<And>j. j < i' \<Longrightarrow> occupied (entries t ! j) \<Longrightarrow>
        \<exists>a s. key (entries t ! j) = Some (Heap a) \<and> a < length m \<and> m ! a = Live s \<and>
           new' ! slot_index s (2 ^ Suc n) = entries t ! j"
    and cnew: "length (filter occupied new') \<le> length (filter occupied (take i' (entries t)))"
    by (simp_all add: expand_inv_def)
  show "m' = m" by (rule m)
  show "length_ht t' = length_ht t" by (simp add: t')
  show "unat (capacity t') = 2 * unat (capacity t)"
    using u unat_pow2 [OF n1] by (simp add: t')
  have live: "live_entry m x" if "x \<in> set (entries t)" "occupied x" for x
  proof -
    from that(1) obtain j where j: "j < length (entries t)" "x = entries t ! j"
      by (auto simp: in_set_conv_nth)
    with len i' have "j < i'" by simp
    from fwd [OF this] that(2) j show ?thesis
      by (auto simp: live_entry_def readable_def)
  qed
  show "ht_inv m t'"
  proof (rule ht_invI [of "Suc n"])
    show "4 \<le> Suc n" using n(1) by simp
    show "Suc n < 64" by (rule n1)
    show "capacity t' = 2 ^ Suc n" by (simp add: t')
    show "length (entries t') = 2 ^ Suc n" using lnew by (simp add: t')
    show "home_slots m (entries t') (2 ^ Suc n)" using hnew by (simp add: t')
    have "length (filter (live_entry m) new') \<le> length (filter occupied new')"
      by (rule filter_le) (rule live_entry_occupied)
    also note cnew
    also have "take i' (entries t) = entries t" using i' len by simp
    also have "length (filter occupied (entries t)) \<le> length (filter (live_entry m) (entries t))"
      by (rule filter_le) (rule live)
    also note cnt
    finally show "length (filter (live_entry m) (entries t')) \<le> unat (length_ht t')"
      by (simp add: t')
    show "unat (length_ht t') \<le> 2 ^ Suc n div 2"
      using half by (simp add: t')
  qed
  show "holds m (entries t') (capacity t') k v" if h: "holds m (entries t) (capacity t) k v"
  proof -
    let ?i = "slot_index k (2 ^ n)"
    from h n(3) obtain p s where p: "key (entries t ! ?i) = Some p" "deref m p = Inr s"
      "strcmp_eq k s" "val (entries t ! ?i) = v"
      by (auto simp: holds_def split: option.splits sum.splits)
    have "?i < 2 ^ n" by (rule slot_index_less [OF n(2)])
    with i' have "?i < i'" by simp
    from fwd [OF this] p(1) obtain a s' where a: "key (entries t ! ?i) = Some (Heap a)"
      "m ! a = Live s'" "new' ! slot_index s' (2 ^ Suc n) = entries t ! ?i"
      by (auto simp: occupied_def)
    from a(1) p(1,2) have "deref m (Heap a) = Inr s" by simp
    from deref_HeapD [OF this] a(2) have "s' = s" by simp
    with a(3) strcmp_eq_slot [OF p(3)]
    have eq: "new' ! slot_index k (2 ^ Suc n) = entries t ! ?i" by simp
    have "slot_index k (2 ^ Suc n) < 2 ^ Suc n" by (rule slot_index_less [OF n1])
    with eq p lnew unat_pow2 [OF n1] show ?thesis
      by (simp add: holds_def t')
  qed
qed

lemma ht_expand_entries:
  assumes inv: "ht_inv m t" and ex: "ht_expand ok m t = Inr (True, m', t')"
    and e: "e \<in> set (entries t')" "occupied e"
  shows "e \<in> set (entries t)"
proof -
  from inv ex obtain n i' new' where n: "n < 63" and len: "length (entries t) = 2 ^ n"
    and t': "t' = t\<lparr>entries := new', capacity := 2 ^ Suc n\<rparr>"
    and X: "expand_inv m (entries t) (2 ^ n) (2 ^ Suc n) i' new'"
    by (rule ht_expand_final)
  from X have lnew: "length new' = 2 * 2 ^ n"
    and bwd: "\<And>j. j < 2 * 2 ^ n \<Longrightarrow> occupied (new' ! j) \<Longrightarrow> new' ! j = entries t ! (j mod 2 ^ n)"
    by (simp_all add: expand_inv_def)
  from e(1) t' obtain j where j: "j < length new'" "e = new' ! j"
    by (auto simp: in_set_conv_nth)
  with bwd [of j] lnew e(2) have "e = entries t ! (j mod 2 ^ n)" by simp
  moreover have "j mod 2 ^ n < length (entries t)" using len by simp
  ultimately show ?thesis by simp
qed

lemma filter_update_same:
  assumes "j < length xs \<Longrightarrow> P x = P (xs ! j)"
  shows "length (filter P (xs[j := x])) = length (filter P xs)"
  using assms
proof (induction xs arbitrary: j)
  case Nil
  then show ?case by simp
next
  case (Cons y ys)
  then show ?case by (cases j) auto
qed

lemma ht_set_grow_ok:
  assumes inv: "ht_inv m t" and g: "ht_set_grow ok m t = Inr (Some (m1, t1))"
  shows "m1 = m \<and> ht_inv m t1 \<and> unat (length_ht t1) < unat (capacity t1) div 2 \<and>
      length_ht t1 = length_ht t \<and>
      (t1 = t \<or> ht_expand ok m t = Inr (True, m, t1) \<and> unat (capacity t1) = 2 * unat (capacity t)) \<and>
      (holds m (entries t) (capacity t) k v \<longrightarrow> holds m (entries t1) (capacity t1) k v)"
proof -
  from inv obtain n where n: "4 \<le> n" "n < 64" "capacity t = 2 ^ n"
    and u: "unat (capacity t) = 2 ^ n"
    and half: "unat (length_ht t) \<le> 2 ^ n div 2"
    by (rule ht_invD)
  have d: "unat (capacity t div 2) = 2 ^ n div 2"
    using u by (simp add: unat_div)
  have big: "(2::nat) ^ n div 2 < 2 ^ n" by simp
  show ?thesis
  proof (cases "capacity t div 2 \<le> length_ht t")
    case False
    with g have same: "m1 = m" "t1 = t"
      by (simp_all add: ht_set_grow_def)
    from False d have "unat (length_ht t) < 2 ^ n div 2"
      by (simp add: word_le_nat_alt)
    with same inv u show ?thesis
      by simp
  next
    case True
    with g have ex: "ht_expand ok m t = Inr (True, m1, t1)"
      by (auto simp: ht_set_grow_def split: sum.splits if_splits)
    note E = ht_expand_ok [OF inv ex]
    from E(3) u have "unat (capacity t1) div 2 = 2 ^ n" by simp
    with half big have "unat (length_ht t) < unat (capacity t1) div 2"
      by linarith
    with E ex show ?thesis
      by simp
  qed
qed

section \<open>Insertion and removal keep the invariant\<close>

lemma home_slots_keys:
  assumes "home_slots m es cap" and "length es' = length es"
    and "\<And>i. i < length es \<Longrightarrow> key (es' ! i) = key (es ! i)"
  shows "home_slots m es' cap"
  using assms by (simp add: home_slots_def)

lemma unat_succ:
  assumes "unat (w :: 64 word) < 2 ^ 63"
  shows "unat (w + 1) = Suc (unat w)"
proof -
  have "unat w + unat (1 :: 64 word) < 2 ^ LENGTH(64)"
    using assms by simp
  then have "unat (w + 1) = unat w + unat (1 :: 64 word)"
    by (simp only: unat_add_lem)
  then show ?thesis by simp
qed

lemma set_entry_hit:
  assumes "holds m es cap k v0"
  shows "ht_set_entry ok m es cap (Lit k) v (Some n)
    = Inr (key (es ! slot_index k cap), m,
           es[slot_index k cap := (es ! slot_index k cap)\<lparr>val := v\<rparr>], Some n)"
proof -
  let ?i = "slot_index k cap"
  from assms obtain p s where "?i < length es" "?i < unat cap"
    "key (es ! ?i) = Some p" "deref m p = Inr s" "strcmp_eq k s"
    by (auto simp: holds_def split: option.splits sum.splits)
  then show ?thesis
    by (simp add: ht_set_entry_def set_loop_hit Let_def)
qed

lemma set_entry_inv:
  assumes inv: "ht_inv m t" and room: "unat (length_ht t) < unat (capacity t) div 2"
    and se: "ht_set_entry ok m (entries t) (capacity t) (Lit k) v (Some (length_ht t))
               = Inr (ret, m', es', pl)"
  shows "ht_inv m' (t\<lparr>entries := es', length_ht := (case pl of Some n \<Rightarrow> n | None \<Rightarrow> length_ht t)\<rparr>) \<and>
    (ret \<noteq> None \<longrightarrow> holds m' es' (capacity t) k v) \<and>
    (ret = None \<longrightarrow> m' = m \<and> es' = entries t \<and> pl = Some (length_ht t))"
proof -
  let ?es = "entries t" and ?cap = "capacity t"
  let ?i = "slot_index k ?cap"
  from inv obtain n where n: "4 \<le> n" "n < 64" "capacity t = 2 ^ n"
    and u: "unat (capacity t) = 2 ^ n" and len: "length (entries t) = 2 ^ n"
    and home: "home_slots m (entries t) (2 ^ n)"
    and cnt: "length (filter (live_entry m) (entries t)) \<le> unat (length_ht t)"
    and half: "unat (length_ht t) \<le> 2 ^ n div 2"
    by (rule ht_invD)
  note C = set_entry_cases [OF se]
  from C have bi: "?i < unat ?cap" "?i < length ?es" by simp_all
  from C consider
      (fail) "ret = None" "m' = m" "es' = ?es" "pl = Some (length_ht t)"
    | (hit) p j s where "ret = Some p" "m' = m" "pl = Some (length_ht t)" "j < length ?es"
        "key (?es ! j) = Some p" "deref m p = Inr s" "strcmp_eq k s"
        "es' = ?es[j := (?es ! j)\<lparr>val := v\<rparr>]"
    | (ins) "ok" "ret = Some (Heap (length m))" "m' = m @ [Live (c_str k)]"
        "pl = Some (length_ht t + 1)"
        "es' = ?es[?i := \<lparr>key = Some (Heap (length m)), val = v\<rparr>]"
    by blast
  then show ?thesis
  proof cases
    case fail
    with inv show ?thesis by simp
  next
    case hit
    from home_slotsD [OF home hit(4)] hit(5) n(3) obtain a where a: "p = Heap a"
      "at_home (m ! a) ?cap j" by auto
    from hit(6) a(1) deref_HeapD have "m ! a = Live s" by blast
    with a(2) have "slot_index s ?cap = j" by simp
    with strcmp_eq_slot [OF hit(7)] have j: "j = ?i" by simp
    have keys: "key (es' ! i) = key (?es ! i)" if "i < length ?es" for i
      using that hit(8) by (cases "i = j") simp_all
    have "ht_inv m (t\<lparr>entries := es'\<rparr>)"
    proof (rule ht_invI [of n])
      show "home_slots m (entries (t\<lparr>entries := es'\<rparr>)) (2 ^ n)"
        using home_slots_keys [OF home _ keys] hit(8) by simp
      have "length (filter (live_entry m) es') = length (filter (live_entry m) ?es)"
        unfolding hit(8) by (rule filter_update_same) (simp add: live_entry_def)
      with cnt show "length (filter (live_entry m) (entries (t\<lparr>entries := es'\<rparr>)))
          \<le> unat (length_ht (t\<lparr>entries := es'\<rparr>))" by simp
    qed (use n len half hit(8) in simp_all)
    moreover have "holds m es' ?cap k v"
      using bi hit j by (simp add: holds_def)
    ultimately show ?thesis
      using hit(1,2,3) by simp
  next
    case ins
    let ?t' = "t\<lparr>entries := es', length_ht := length_ht t + 1\<rparr>"
    have small: "unat (length_ht t) < 2 ^ 63"
    proof -
      have "(2::nat) ^ n \<le> 2 ^ 63" using n(2) by (intro power_increasing) simp_all
      with room u show ?thesis by simp
    qed
    have same: "deref m' (Heap a) = deref m (Heap a)" if "a < length m" for a
      using that ins(3) by (simp add: nth_append)
    have ptr: "\<exists>a. p = Heap a \<and> a < length m" if "x \<in> set ?es" "key x = Some p" for x p
    proof -
      from that(1) obtain i where "i < length ?es" "x = ?es ! i"
        by (auto simp: in_set_conv_nth)
      with home_slotsD [OF home this(1)] that(2) show ?thesis by auto
    qed
    have "ht_inv m' ?t'"
    proof (rule ht_invI [of n])
      show "home_slots m' (entries ?t') (2 ^ n)"
        unfolding home_slots_def
      proof (intro allI impI)
        fix i assume i: "i < length (entries ?t')"
        show "case key (entries ?t' ! i) of None \<Rightarrow> True | Some (Lit s) \<Rightarrow> False
           | Some (Heap a) \<Rightarrow> a < length m' \<and> at_home (m' ! a) (2 ^ n) i"
        proof (cases "i = ?i")
          case True
          with bi ins(3,5) n(3) strcmp_eq_slot [OF strcmp_eq_c_str, of k ?cap]
          show ?thesis by simp
        next
          case False
          from i ins(5) have il: "i < length ?es" by simp
          show ?thesis
          proof (cases "key (?es ! i)")
            case None
            with False ins(5) show ?thesis by simp
          next
            case (Some p)
            from home_slotsD [OF home il Some] obtain a where "p = Heap a" "a < length m"
              "at_home (m ! a) (2 ^ n) i" by blast
            with False Some ins(3,5) show ?thesis by (simp add: nth_append)
          qed
        qed
      qed
      have "length (filter (live_entry m') es') \<le> Suc (length (filter (live_entry m') ?es))"
        unfolding ins(5) by (rule filter_update_le)
      also have "length (filter (live_entry m') ?es) \<le> length (filter (live_entry m) ?es)"
      proof (rule filter_le)
        fix x assume x: "x \<in> set ?es" "live_entry m' x"
        then obtain p where p: "key x = Some p"
          by (auto simp: live_entry_def split: option.splits)
        from ptr [OF x(1) p] obtain a where "p = Heap a" "a < length m" by blast
        with x(2) p same show "live_entry m x"
          by (simp add: live_entry_def readable_def)
      qed
      also note cnt
      finally show "length (filter (live_entry m') (entries ?t')) \<le> unat (length_ht ?t')"
        using unat_succ [OF small] by simp
      show "unat (length_ht ?t') \<le> 2 ^ n div 2"
        using room u unat_succ [OF small] by simp
    qed (use n len ins(5) in simp_all)
    moreover have "holds m' es' ?cap k v"
      using bi ins(3,5) strcmp_eq_c_str [of k] by (simp add: holds_def)
    ultimately show ?thesis
      using ins(2,4) by simp
  qed
qed

lemma ht_set_unfold:
  assumes "ht_set c s m t k v = Inr (r, m', t')"
  shows "(r = - 1 \<and> m' = m \<and> t' = t \<and> (v = NULL \<or> ht_set_grow c m t = Inr None)) \<or>
    (v \<noteq> NULL \<and> (\<exists>m1 t1 ret es2 pl.
       ht_set_grow c m t = Inr (Some (m1, t1)) \<and>
       ht_set_entry s m1 (entries t1) (capacity t1) (Lit k) v (Some (length_ht t1))
         = Inr (ret, m', es2, pl) \<and>
       t' = t1\<lparr>entries := es2, length_ht := (case pl of Some n \<Rightarrow> n | None \<Rightarrow> length_ht t1)\<rparr> \<and>
       r = (if ret \<noteq> None then 0 else - 1)))"
proof (cases "v = NULL")
  case True
  with assms show ?thesis by (simp add: ht_set_def)
next
  case False
  show ?thesis
  proof (cases "ht_set_grow c m t")
    case (Inl f)
    with assms False show ?thesis by (simp add: ht_set_def)
  next
    case (Inr g)
    show ?thesis
    proof (cases g)
      case None
      with assms False Inr show ?thesis by (simp add: ht_set_def)
    next
      case (Some mt)
      obtain m1 t1 where mt: "mt = (m1, t1)" by (cases mt)
      show ?thesis
      proof (cases "ht_set_entry s m1 (entries t1) (capacity t1) (Lit k) v (Some (length_ht t1))")
        case (Inl f)
        with assms False Inr Some mt show ?thesis by (simp add: ht_set_def)
      next
        case se: (Inr q)
        obtain ret m2 es2 pl where q: "q = (ret, m2, es2, pl)" by (cases q)
        from assms False Inr Some mt se q
        have "r = (if ret \<noteq> None then 0 else - 1)" "m' = m2"
          "t' = t1\<lparr>entries := es2, length_ht := (case pl of Some n \<Rightarrow> n | None \<Rightarrow> length_ht t1)\<rparr>"
          by (simp_all add: ht_set_def)
        with False Inr Some mt se q show ?thesis
          by (intro disjI2 conjI exI [of _ m1] exI [of _ t1] exI [of _ ret] exI [of _ es2]
              exI [of _ pl]) simp_all
      qed
    qed
  qed
qed

lemma deref_freed:
  assumes "deref (m[a := Freed s]) p = Inr y"
  shows "deref m p = Inr y"
proof (cases p)
  case (Lit l)
  with assms show ?thesis by simp
next
  case (Heap b)
  with assms show ?thesis
    by (cases "b = a") (auto split: if_splits block.splits)
qed

lemma ht_set_inv:
  assumes inv: "ht_inv m t" and set: "ht_set c s m t k v = Inr (r, m', t')"
  shows "ht_inv m' t' \<and> (r = 0 \<longrightarrow> holds m' (entries t') (capacity t') k v) \<and>
    (capacity t' = capacity t \<or> unat (capacity t') = 2 * unat (capacity t))"
proof -
  from ht_set_unfold [OF set] consider
      (fail) "r = - 1" "m' = m" "t' = t"
    | (probe) m1 t1 ret es2 pl where "ht_set_grow c m t = Inr (Some (m1, t1))"
        "ht_set_entry s m1 (entries t1) (capacity t1) (Lit k) v (Some (length_ht t1))
           = Inr (ret, m', es2, pl)"
        "t' = t1\<lparr>entries := es2, length_ht := (case pl of Some n \<Rightarrow> n | None \<Rightarrow> length_ht t1)\<rparr>"
        "r = (if ret \<noteq> None then 0 else - 1)"
    by blast
  then show ?thesis
  proof cases
    case fail
    with inv show ?thesis by simp
  next
    case probe
    note G = ht_set_grow_ok [OF inv probe(1), of k v]
    from G have m1: "m1 = m" and inv1: "ht_inv m t1"
      and room: "unat (length_ht t1) < unat (capacity t1) div 2" by blast+
    from G have cap: "capacity t1 = capacity t \<or> unat (capacity t1) = 2 * unat (capacity t)"
      by blast
    from set_entry_inv [OF inv1 room probe(2) [unfolded m1]] probe(3,4) cap
    show ?thesis by (auto split: if_splits)
  qed
qed

lemma create_inv:
  assumes "ht_create a b c = Some t"
  shows "ht_inv m t"
proof -
  from assms have t: "t = \<lparr>entries = calloc_entries 16, capacity = 16, length_ht = 0\<rparr>"
    by (auto simp: ht_create_def INITIAL_CAPACITY_def split: if_splits)
  have l: "length (calloc_entries 16) = 16"
    by (simp add: calloc_entries_def)
  have f: "filter (live_entry m) (calloc_entries 16) = []"
    by (simp add: calloc_entries_def zero_entry_def live_entry_def)
  have k: "key (calloc_entries 16 ! i) = None" if "i < 16" for i
    using that by (simp add: calloc_entries_def zero_entry_def)
  show ?thesis
  proof (rule ht_invI [of 4])
    show "home_slots m (entries t) (2 ^ 4)"
      using k l by (simp add: home_slots_def t)
  qed (simp_all add: t l f)
qed

lemma remove_cases:
  assumes "ht_remove m (Some t) k = Some (Inr (r, m', x))"
  shows "(r = - 1 \<and> m' = m \<and> x = Some t) \<or>
    (r = 0 \<and> slot_index k (capacity t) < unat (capacity t) \<and>
     slot_index k (capacity t) < length (entries t) \<and>
     (\<exists>a s. key (entries t ! slot_index k (capacity t)) = Some (Heap a) \<and> a < length m \<and>
        m ! a = Live s \<and> strcmp_eq k s \<and> m' = m[a := Freed s] \<and>
        x = Some (t\<lparr>length_ht := length_ht t - 1\<rparr>)))"
proof -
  let ?i = "slot_index k (capacity t)"
  from assms have b: "?i < unat (capacity t)" "?i < length (entries t)"
    by (auto simp: ht_remove_def Let_def split: if_splits)
  show ?thesis
  proof (cases "key (entries t ! ?i)")
    case None
    with assms b show ?thesis by (simp add: ht_remove_def Let_def)
  next
    case (Some p)
    with assms b have loop: "ht_remove_loop m t k ?i = Some (Inr (r, m', x))"
      by (simp add: ht_remove_def Let_def)
    from ht_remove_loop_never [OF loop] have ns: "\<not> stuck m t k ?i" .
    show ?thesis
    proof (cases "deref m p")
      case (Inl f)
      with loop b Some show ?thesis
        by (subst (asm) ht_remove_loop.simps) simp
    next
      case (Inr s)
      with ns b Some have eq: "strcmp_eq k s" by (simp add: stuck_def)
      show ?thesis
      proof (cases p)
        case (Lit l)
        with loop b Some Inr eq show ?thesis
          by (subst (asm) ht_remove_loop.simps) simp
      next
        case (Heap a)
        with Inr deref_HeapD have a: "a < length m" "m ! a = Live s" by blast+
        with loop b Some Inr eq Heap have "r = 0 \<and> m' = m[a := Freed s] \<and>
            x = Some (t\<lparr>length_ht := length_ht t - 1\<rparr>)"
          by (subst (asm) ht_remove_loop.simps) simp
        with b Some Heap a eq show ?thesis by simp
      qed
    qed
  qed
qed

lemma remove_live_less:
  assumes "i < length es" and "key (es ! i) = Some (Heap a)" and "a < length m"
    and "m ! a = Live s"
  shows "length (filter (live_entry (m[a := Freed s])) es) < length (filter (live_entry m) es)"
proof (rule filter_less)
  fix x assume "x \<in> set es" "live_entry (m[a := Freed s]) x"
  then show "live_entry m x"
    using deref_freed [of m a s]
    by (auto simp: live_entry_def readable_def split: option.splits sum.splits)
next
  have "es ! i \<in> set es" using assms(1) by simp
  moreover have "live_entry m (es ! i)"
    using assms(2,3,4) by (simp add: live_entry_def readable_def)
  moreover have "\<not> live_entry (m[a := Freed s]) (es ! i)"
    using assms(2,3) by (simp add: live_entry_def readable_def)
  ultimately show "\<exists>x\<in>set es. live_entry m x \<and> \<not> live_entry (m[a := Freed s]) x" by blast
qed

lemma remove_inv:
  assumes inv: "ht_inv m t" and rm: "ht_remove m (Some t) k = Some (Inr (r, m', Some t'))"
  shows "ht_inv m' t' \<and> capacity t' = capacity t"
proof -
  let ?i = "slot_index k (capacity t)"
  from remove_cases [OF rm] consider
      (none) "m' = m" "t' = t"
    | (freed) a s where "?i < length (entries t)" "key (entries t ! ?i) = Some (Heap a)"
        "a < length m" "m ! a = Live s" "m' = m[a := Freed s]"
        "t' = t\<lparr>length_ht := length_ht t - 1\<rparr>"
    by auto
  then show ?thesis
  proof cases
    case none
    with inv show ?thesis by simp
  next
    case freed
    from inv obtain n where n: "4 \<le> n" "n < 64" "capacity t = 2 ^ n"
      and len: "length (entries t) = 2 ^ n"
      and home: "home_slots m (entries t) (2 ^ n)"
      and cnt: "length (filter (live_entry m) (entries t)) \<le> unat (length_ht t)"
      and half: "unat (length_ht t) \<le> 2 ^ n div 2"
      by (rule ht_invD)
    have str: "at_home (m' ! b) c i" if "b < length m" "at_home (m ! b) c i" for b c i
      using that freed(4,5) by (cases "b = a") simp_all
    have less: "length (filter (live_entry m') (entries t)) < length (filter (live_entry m) (entries t))"
      unfolding freed(5) using freed(1-4) by (rule remove_live_less)
    with cnt have pos: "length_ht t \<noteq> 0" by (auto simp: unat_eq_0)
    then have dec: "unat (length_ht t - 1) = unat (length_ht t) - 1"
      by (rule unat_minus_one)
    have "ht_inv m' t'"
    proof (rule ht_invI [of n])
      show "home_slots m' (entries t') (2 ^ n)"
        unfolding home_slots_def
      proof (intro allI impI)
        fix i assume i: "i < length (entries t')"
        then have il: "i < length (entries t)" by (simp add: freed(6))
        show "case key (entries t' ! i) of None \<Rightarrow> True | Some (Lit s) \<Rightarrow> False
           | Some (Heap a) \<Rightarrow> a < length m' \<and> at_home (m' ! a) (2 ^ n) i"
        proof (cases "key (entries t ! i)")
          case None
          then show ?thesis by (simp add: freed(6))
        next
          case (Some p)
          from home_slotsD [OF home il Some] obtain b where "p = Heap b" "b < length m"
            "at_home (m ! b) (2 ^ n) i" by blast
          with Some str [of b "2 ^ n" i] freed(5) show ?thesis by (simp add: freed(6))
        qed
      qed
      show "length (filter (live_entry m') (entries t')) \<le> unat (length_ht t')"
        using less cnt dec by (simp add: freed(6))
      show "unat (length_ht t') \<le> 2 ^ n div 2"
        using half dec by (simp add: freed(6))
    qed (use n len in \<open>simp_all add: freed(6)\<close>)
    then show ?thesis by (simp add: freed(6))
  qed
qed

lemma reachable_inv:
  assumes "reachable m t"
  shows "ht_inv m t"
  using assms
proof (induction rule: reachable.induct)
  case (create malloc_ok calloc_ok mutex_ok t m)
  then show ?case by (rule create_inv)
next
  case (set m t calloc_ok strdup_ok k v r m' t')
  from ht_set_inv [OF set.IH set.hyps(2)] show ?case by simp
next
  case (remove m t k r m' t')
  from remove_inv [OF remove.IH remove.hyps(2)] show ?case by simp
qed

lemma remove_pos:
  assumes inv: "ht_inv m t" and rm: "ht_remove m (Some t) k = Some (Inr (0, m', x))"
  shows "length_ht t \<noteq> 0"
proof -
  let ?i = "slot_index k (capacity t)"
  from remove_cases [OF rm] obtain a s where "?i < length (entries t)"
    "key (entries t ! ?i) = Some (Heap a)" "a < length m" "m ! a = Live s"
    by auto
  from remove_live_less [OF this] inv show ?thesis
    by (auto simp: ht_inv_def)
qed


section \<open>Distinct keys, growth and lookups\<close>

lemma stored_in_mono:
  assumes "stored_in m es K" and "\<And>e. e \<in> set es' \<Longrightarrow> occupied e \<Longrightarrow> e \<in> set es"
  shows "stored_in m es' K"
  unfolding stored_in_def
proof
  fix e assume e: "e \<in> set es'"
  show "case key e of None \<Rightarrow> True
     | Some p \<Rightarrow> (case deref m p of Inl f \<Rightarrow> True | Inr s \<Rightarrow> c_str s \<in> K)"
  proof (cases "key e")
    case None
    then show ?thesis by simp
  next
    case (Some p)
    then have "occupied e" by (simp add: occupied_def)
    from assms(2) [OF e this] assms(1) show ?thesis by (simp add: stored_in_def)
  qed
qed

lemma grow_stored:
  assumes inv: "ht_inv m t" and st: "stored_in m (entries t) K"
    and g: "ht_set_grow ok m t = Inr (Some (m1, t1))"
  shows "stored_in m (entries t1) K"
proof (cases "capacity t div 2 \<le> length_ht t")
  case False
  with g st show ?thesis by (simp add: ht_set_grow_def)
next
  case True
  with g have ex: "ht_expand ok m t = Inr (True, m1, t1)"
    by (auto simp: ht_set_grow_def split: sum.splits if_splits)
  from st show ?thesis
    by (rule stored_in_mono) (rule ht_expand_entries [OF inv ex])
qed

lemma stored_in_update:
  assumes "stored_in m es K"
    and "case key x of None \<Rightarrow> True
       | Some p \<Rightarrow> (case deref m p of Inl f \<Rightarrow> True | Inr s \<Rightarrow> c_str s \<in> K)"
  shows "stored_in m (es[i := x]) K"
  unfolding stored_in_def
proof
  fix e assume "e \<in> set (es[i := x])"
  then have "e = x \<or> e \<in> set es"
    using set_update_subset_insert [of es i x] by auto
  with assms show "case key e of None \<Rightarrow> True
     | Some p \<Rightarrow> (case deref m p of Inl f \<Rightarrow> True | Inr s \<Rightarrow> c_str s \<in> K)"
    by (auto simp: stored_in_def)
qed

lemma stored_in_append:
  assumes st: "stored_in m es K" and home: "home_slots m es cap"
  shows "stored_in (m @ [b]) es K"
  unfolding stored_in_def
proof
  fix e assume e: "e \<in> set es"
  then obtain i where i: "i < length es" "e = es ! i" by (auto simp: in_set_conv_nth)
  show "case key e of None \<Rightarrow> True
     | Some p \<Rightarrow> (case deref (m @ [b]) p of Inl f \<Rightarrow> True | Inr s \<Rightarrow> c_str s \<in> K)"
  proof (cases "key e")
    case None
    then show ?thesis by simp
  next
    case (Some p)
    with home_slotsD [OF home i(1)] i(2) obtain a where "p = Heap a" "a < length m" by auto
    then have "deref (m @ [b]) p = deref m p" by (simp add: nth_append)
    with st e Some show ?thesis by (auto simp: stored_in_def)
  qed
qed

lemma stored_inD:
  assumes "stored_in m es K" and "j < length es" and "key (es ! j) = Some p"
    and "deref m p = Inr s"
  shows "c_str s \<in> K"
proof -
  from assms(2) have "es ! j \<in> set es" by simp
  with assms(1) have "case key (es ! j) of None \<Rightarrow> True
     | Some p \<Rightarrow> (case deref m p of Inl f \<Rightarrow> True | Inr s \<Rightarrow> c_str s \<in> K)"
    unfolding stored_in_def by (rule bspec)
  with assms(3,4) show ?thesis by simp
qed

lemma stored_in_weaken: "stored_in m es K \<Longrightarrow> K \<subseteq> K' \<Longrightarrow> stored_in m es K'"
  by (fastforce simp: stored_in_def split: option.splits sum.splits)

lemma set_stored:
  assumes inv: "ht_inv m t" and st: "stored_in m (entries t) K"
    and set: "ht_set c s m t k v = Inr (r, m', t')"
  shows "stored_in m' (entries t') (insert (c_str k) K) \<and>
    (r = 0 \<longrightarrow> c_str k \<notin> K \<longrightarrow> unat (length_ht t') = Suc (unat (length_ht t)))"
proof -
  from ht_set_unfold [OF set] consider
      (fail) "r = - 1" "m' = m" "t' = t"
    | (probe) m1 t1 ret es2 pl where "ht_set_grow c m t = Inr (Some (m1, t1))"
        "ht_set_entry s m1 (entries t1) (capacity t1) (Lit k) v (Some (length_ht t1))
           = Inr (ret, m', es2, pl)"
        "t' = t1\<lparr>entries := es2, length_ht := (case pl of Some n \<Rightarrow> n | None \<Rightarrow> length_ht t1)\<rparr>"
        "r = (if ret \<noteq> None then 0 else - 1)"
    by blast
  then show ?thesis
  proof cases
    case fail
    with st show ?thesis by (auto intro: stored_in_weaken)
  next
    case probe
    note G = ht_set_grow_ok [OF inv probe(1), of k v]
    from G have m1: "m1 = m" and inv1: "ht_inv m t1"
      and room: "unat (length_ht t1) < unat (capacity t1) div 2"
      and l1: "length_ht t1 = length_ht t" by blast+
    from grow_stored [OF inv st probe(1)] have st1: "stored_in m (entries t1) K" .
    from inv1 have home1: "home_slots m (entries t1) (capacity t1)" by (simp add: ht_inv_def)
    from inv1 obtain n where n: "n < 64" "unat (capacity t1) = 2 ^ n" by (rule ht_invD)
    have small: "unat (length_ht t1) < 2 ^ 63"
    proof -
      have "(2::nat) ^ n \<le> 2 ^ 63" using n(1) by (intro power_increasing) simp_all
      with room n(2) show ?thesis by simp
    qed
    from set_entry_cases [OF probe(2) [unfolded m1]] consider
        (none) "ret = None" "m' = m" "es2 = entries t1"
      | (hit) p j s where "ret = Some p" "m' = m" "pl = Some (length_ht t1)"
          "j < length (entries t1)" "key (entries t1 ! j) = Some p" "deref m p = Inr s"
          "strcmp_eq k s" "es2 = (entries t1)[j := (entries t1 ! j)\<lparr>val := v\<rparr>]"
      | (ins) "ret = Some (Heap (length m))" "m' = m @ [Live (c_str k)]"
          "pl = Some (length_ht t1 + 1)"
          "es2 = (entries t1)[slot_index k (capacity t1) := \<lparr>key = Some (Heap (length m)), val = v\<rparr>]"
      by blast
    then show ?thesis
    proof cases
      case none
      with st1 probe(3,4) show ?thesis by (auto intro: stored_in_weaken)
    next
      case hit
      from st1 hit(4,5,6) have in_K: "c_str s \<in> K"
        by (rule stored_inD)
      with hit(7) have "c_str k \<in> K" by (simp add: strcmp_eq_def)
      moreover have "stored_in m es2 K"
        unfolding hit(8) using st1 hit(5,6) in_K by (intro stored_in_update) simp_all
      ultimately show ?thesis
        using hit(2) probe(3) by (auto intro: stored_in_weaken)
    next
      case ins
      have "stored_in m' (entries t1) K"
        unfolding ins(2) using st1 home1 by (rule stored_in_append)
      then have "stored_in m' (entries t1) (insert (c_str k) K)"
        by (rule stored_in_weaken) auto
      then have "stored_in m' es2 (insert (c_str k) K)"
        unfolding ins(4) by (rule stored_in_update) (simp add: ins(2) c_str_idem)
      moreover have "unat (length_ht t') = Suc (unat (length_ht t))"
        using probe(3) ins(3) unat_succ [OF small] l1 by simp
      ultimately show ?thesis
        using probe(3) by simp
    qed
  qed
qed

lemma set_run_inv:
  assumes "set_run m t ks"
  shows "ht_inv m t \<and> stored_in m (entries t) (c_str ` set ks) \<and>
    (distinct (map c_str ks) \<longrightarrow> unat (length_ht t) = length ks)"
  using assms
proof (induction rule: set_run.induct)
  case (start malloc_ok calloc_ok mutex_ok t m)
  from start have t: "t = \<lparr>entries = calloc_entries 16, capacity = 16, length_ht = 0\<rparr>"
    by (auto simp: ht_create_def INITIAL_CAPACITY_def split: if_splits)
  have "stored_in m (entries t) {}"
    by (simp add: stored_in_def t calloc_entries_def zero_entry_def)
  with create_inv [OF start] t show ?case by simp
next
  case (step m t ks calloc_ok strdup_ok k v m' t')
  from step.IH have inv: "ht_inv m t" and st: "stored_in m (entries t) (c_str ` set ks)"
    by simp_all
  from ht_set_inv [OF inv step.hyps(2)] have inv': "ht_inv m' t'" by simp
  note S = set_stored [OF inv st step.hyps(2)]
  have "unat (length_ht t') = length (k # ks)" if "distinct (map c_str (k # ks))"
  proof -
    from that have "c_str k \<notin> c_str ` set ks" "distinct (map c_str ks)" by simp_all
    with S step.IH show ?thesis by simp
  qed
  with inv' S show ?case by simp
qed

text \<open>After successful insertions of distinct keys into a fresh table, the length is their number.\<close>

lemma distinct_sets_length:
  assumes "set_run m t ks" and "distinct (map c_str ks)"
  shows "unat (ht_length t) = length ks"
  using set_run_inv [OF assms(1)] assms(2) by (simp add: ht_length_def)

lemma get_loop_result:
  assumes "ht_get_loop m t k index i = Inr v" and "v \<noteq> NULL"
  shows "\<exists>j p s. j < length (entries t) \<and> j < unat (capacity t) \<and> key (entries t ! j) = Some p \<and>
      deref m p = Inr s \<and> strcmp_eq k s \<and> val (entries t ! j) = v"
  using assms
proof (induction m t k index i rule: ht_get_loop.induct)
  case (1 m t k index i)
  note step = ht_get_loop.simps [of m t k index i]
  from "1.prems"(1) have guard: "index < unat (capacity t) \<and> i < unat (capacity t) \<and>
      i < length (entries t)"
    by (subst (asm) step) (simp split: if_splits)
  show ?case
  proof (cases "key (entries t ! i)")
    case None
    with "1.prems" guard show ?thesis
      by (subst (asm) step) auto
  next
    case (Some p)
    show ?thesis
    proof (cases "deref m p")
      case (Inl f)
      with "1.prems" guard Some show ?thesis
        by (subst (asm) step) simp
    next
      case (Inr s)
      show ?thesis
      proof (cases "strcmp_eq k s")
        case True
        with "1.prems"(1) guard Some Inr have "val (entries t ! i) = v"
          by (subst (asm) step) simp
        with guard Some Inr True show ?thesis by blast
      next
        case False
        show ?thesis
        proof (cases "next_slot (capacity t) i = index")
          case True
          with "1.prems" guard Some Inr False show ?thesis
            by (subst (asm) step) simp
        next
          case nowrap: False
          with "1.prems"(1) guard Some Inr False
          have "ht_get_loop m t k index (next_slot (capacity t) i) = Inr v"
            by (subst (asm) step) simp
          from "1.IH" [OF _ Some Inr False nowrap this "1.prems"(2)] guard show ?thesis by simp
        qed
      qed
    qed
  qed
qed

lemma get_found_holds:
  assumes home: "home_slots m (entries t) (capacity t)"
    and get: "ht_get m t k = Inr v" and v: "v \<noteq> NULL"
  shows "holds m (entries t) (capacity t) k v"
proof -
  let ?i = "slot_index k (capacity t)"
  from get have loop: "ht_get_loop m t k ?i ?i = Inr v" by (simp add: ht_get_def Let_def)
  from get_loop_result [OF loop v] obtain j p s where j: "j < length (entries t)"
    "j < unat (capacity t)" "key (entries t ! j) = Some p" "deref m p = Inr s"
    "strcmp_eq k s" "val (entries t ! j) = v" by blast
  from home_slotsD [OF home j(1,3)] obtain a where a: "p = Heap a"
    "at_home (m ! a) (capacity t) j" by blast
  from j(4) a(1) deref_HeapD have "m ! a = Live s" by blast
  with a(2) strcmp_eq_slot [OF j(5)] have "j = ?i" by simp
  with j show ?thesis by (simp add: holds_def)
qed

text \<open>
  Growth keeps the length, and every key \<^verbatim>\<open>ht_get\<close> found before it is found after
  it, with the same value.
\<close>

lemma growth_keeps_lookups:
  assumes "reachable m t" and "ht_expand ok m t = Inr (True, m', t')"
  shows "ht_length t' = ht_length t"
    and "ht_get m t k = Inr v \<Longrightarrow> v \<noteq> NULL \<Longrightarrow> ht_get m' t' k = Inr v"
proof -
  from assms(1) have inv: "ht_inv m t" by (rule reachable_inv)
  note E = ht_expand_ok [OF inv assms(2)]
  from E(4) show "ht_length t' = ht_length t" by (simp add: ht_length_def)
  assume "ht_get m t k = Inr v" "v \<noteq> NULL"
  with inv have "holds m (entries t) (capacity t) k v"
    by (intro get_found_holds) (simp_all add: ht_inv_def)
  from E(5) [OF this] E(1) show "ht_get m' t' k = Inr v"
    by (simp add: get_holds)
qed

text \<open>When the slot a key hashes to holds that key, live, \<^verbatim>\<open>ht_remove\<close> frees it and returns 0.\<close>

lemma remove_hit:
  assumes "slot_index k (capacity t) < unat (capacity t)"
    and "slot_index k (capacity t) < length (entries t)"
    and "key (entries t ! slot_index k (capacity t)) = Some (Heap a)"
    and "a < length m" and "m ! a = Live s" and "strcmp_eq k s"
  shows "ht_remove m (Some t) k
    = Some (Inr (0, m[a := Freed s], Some (t\<lparr>length_ht := length_ht t - 1\<rparr>)))"
  using assms by (simp add: ht_remove_def Let_def ht_remove_loop.simps)

lemma set_then_get:
  assumes "reachable m t" and "ht_set c s m t k v = Inr (0, m', t')"
  shows "ht_get m' t' k = Inr v"
proof -
  from assms(1) have "ht_inv m t" by (rule reachable_inv)
  from ht_set_inv [OF this assms(2)] show ?thesis by (simp add: get_holds)
qed

section \<open>Failure of an insertion, and the example runs\<close>

lemma create_empty: "ht_create True True True = Some tbl_empty"
  by code_simp

lemma set_a: "ht_set True True [] tbl_empty ''a'' 1 = Inr (0, [Live ''a''], tbl_a)"
  by code_simp

lemma set_a_to_h:
  "ht_set_all [] tbl_empty
     [(''a'', 1), (''b'', 2), (''c'', 3), (''d'', 4), (''e'', 5), (''f'', 6), (''g'', 7), (''h'', 8)]
   = Inr ([0, 0, 0, 0, 0, 0, 0, 0], mem_a_to_h, tbl_a_to_h)"
  by code_simp

lemma expand_loop_mem:
  assumes "ht_expand_loop m t new nc i = Inr (m', new')"
  shows "m' = m"
  using assms
proof (induction m t new nc i rule: ht_expand_loop.induct)
  case (1 m t new nc i)
  note step = ht_expand_loop.simps [of m t new nc i]
  show ?case
  proof (cases "i < unat (capacity t) \<and> i < length (entries t)")
    case False
    with "1.prems" show ?thesis
      by (subst (asm) step) (auto split: if_splits)
  next
    case True
    show ?thesis
    proof (cases "key (entries t ! i)")
      case None
      with "1.prems" True have "ht_expand_loop m t new nc (i + 1) = Inr (m', new')"
        by (subst (asm) step) (simp add: Let_def)
      with "1.IH"(1) True None show ?thesis by simp
    next
      case (Some kp)
      with "1.prems" True obtain ret m1 es1 pl where
        se: "ht_set_entry True m new nc kp (val (entries t ! i)) None = Inr (ret, m1, es1, pl)"
        and rec: "ht_expand_loop m1 t es1 nc (i + 1) = Inr (m', new')"
        by (subst (asm) step) (auto simp: Let_def split: sum.splits)
      from se have "m1 = m" by (rule set_entry_expand_cases)
      with "1.IH"(2) [OF _ _ refl Some se refl refl refl] True rec show ?thesis by simp
    qed
  qed
qed

lemma ht_expand_frame:
  assumes "ht_expand ok m t = Inr (b, m', t')"
  shows "m' = m \<and> length_ht t' = length_ht t \<and>
    (if b then capacity t' = capacity t * 2 else t' = t)"
proof (cases b)
  case False
  with assms show ?thesis
    by (auto simp: ht_expand_def Let_def split: if_splits sum.splits)
next
  case True
  with assms obtain new' where
    "ht_expand_loop m t (calloc_entries (capacity t * 2)) (capacity t * 2) 0 = Inr (m', new')"
    "t' = t\<lparr>entries := new', capacity := capacity t * 2\<rparr>"
    by (auto simp: ht_expand_def Let_def split: if_splits sum.splits)
  with expand_loop_mem True show ?thesis by auto
qed

lemma reachable_set_all:
  assumes "reachable m t" and "ht_set_all m t kvs = Inr (rs, m', t')"
  shows "reachable m' t'"
  using assms
proof (induction kvs arbitrary: m t rs)
  case Nil
  then show ?case by simp
next
  case (Cons kv kvs)
  obtain k v where kv: "kv = (k, v)" by (cases kv)
  from Cons.prems(2) kv obtain r m1 t1 rs1 where
    one: "ht_set True True m t k v = Inr (r, m1, t1)"
    and rest: "ht_set_all m1 t1 kvs = Inr (rs1, m', t')"
    by (auto split: sum.splits)
  from reachable.set [OF Cons.prems(1) one] have "reachable m1 t1" .
  from Cons.IH [OF this rest] show ?case .
qed

lemma reachable_empty: "reachable [] tbl_empty"
  using create_empty by (rule reachable.create)

lemma reachable_a_to_h: "reachable mem_a_to_h tbl_a_to_h"
  using reachable_empty set_a_to_h by (rule reachable_set_all)

lemma fail_i:
  "ht_set True False mem_a_to_h tbl_a_to_h ''i'' 9 = Inr (- 1, mem_a_to_h, tbl_a_to_h_grown)"
  by code_simp

lemma grow_a_to_h:
  "ht_set_grow True mem_a_to_h tbl_a_to_h = Inr (Some (mem_a_to_h, tbl_a_to_h_grown))"
  by code_simp

lemma expand_a_to_h:
  "ht_expand True mem_a_to_h tbl_a_to_h = Inr (True, mem_a_to_h, tbl_a_to_h_grown)"
  by code_simp

lemma remove_a_of_h:
  "ht_remove mem_a_to_h (Some tbl_a_to_h) ''a''
     = Some (Inr (0, mem_a_to_h[0 := Freed ''a''], Some (tbl_a_to_h\<lparr>length_ht := 7\<rparr>)))"
  by code_simp

lemma set_a_again:
  "ht_set True True mem_a_to_h tbl_a_to_h ''a'' 5
     = Inr (0, mem_a_to_h, tbl_a_to_h_set_a 5)"
  by code_simp

lemma set_a_third:
  "ht_set True True mem_a_to_h
      (tbl_a_to_h_set_a 5) ''a'' 6
     = Inr (0, mem_a_to_h, tbl_a_to_h_set_a 6)"
  by code_simp






lemma fail_entry_i:
  "ht_set_entry False mem_a_to_h (entries tbl_a_to_h_grown) (capacity tbl_a_to_h_grown) (Lit ''i'') 9
      (Some (length_ht tbl_a_to_h_grown))
     = Inr (None, mem_a_to_h, entries tbl_a_to_h_grown, Some (length_ht tbl_a_to_h_grown))"
  by code_simp

section \<open>The claims\<close>

text \<open>
  C1 (fails on the code). The claim: in a run of \<open>set\<close> calls on a table made by
  \<open>create\<close>, after a \<open>set(k, v)\<close> that returned Ok, \<open>get(k)\<close> returns \<open>v\<close> as long as
  \<open>k\<close> is not removed or set again. On the code, \<open>set("a", 1)\<close> and \<open>set("q", 2)\<close> on a
  fresh table both return 0; the keys differ and hash to the same slot 12. The second
  call probes to the empty slot 13 and then writes slot 12, over the entry of \<open>a\<close>:
  \<open>get("a")\<close> returns the null pointer, not 1.
\<close>

theorem C1_colliding_set_loses_key:
  "ht_create True True True = Some tbl_empty \<and>
   ht_set True True [] tbl_empty ''a'' 1 = Inr (0, [Live ''a''], tbl_a) \<and>
   ht_set True True [Live ''a''] tbl_a ''q'' 2 = Inr (0, [Live ''a'', Live ''q''], tbl_aq) \<and>
   ht_get [Live ''a'', Live ''q''] tbl_aq ''a'' = Inr NULL \<and>
   ht_get [Live ''a'', Live ''q''] tbl_aq ''q'' = Inr 2"
  by code_simp

text \<open>
  C2 (fails on the code). The claim: when the slot a key starts at is occupied,
  \<open>remove\<close> scans forward from it and terminates. On the code, after \<open>set("a", 1)\<close> on a
  fresh table, slot 12 is occupied by \<open>a\<close>, and \<open>q\<close> starts at slot 12 too;
  \<open>remove("q")\<close> compares with slot 12 again and again: the call does not return.
\<close>

theorem C2_remove_does_not_return:
  "ht_set True True [] tbl_empty ''a'' 1 = Inr (0, [Live ''a''], tbl_a) \<and>
   slot_index ''q'' (capacity tbl_a) = 12 \<and>
   key (entries tbl_a ! 12) = Some (Heap 0) \<and>
   ht_remove [Live ''a''] (Some tbl_a) ''q'' = None"
proof -
  have s: "stuck [Live ''a''] tbl_a ''q'' 12"
    by code_simp
  have i: "slot_index ''q'' (capacity tbl_a) = 12"
    by code_simp
  have "ht_remove [Live ''a''] (Some tbl_a) ''q'' = ht_remove_loop [Live ''a''] tbl_a ''q'' 12"
    using s by (simp add: ht_remove_def i stuck_def split: option.splits)
  then have "ht_remove [Live ''a''] (Some tbl_a) ''q'' = None"
    by (simp add: ht_remove_loop_diverges [OF s])
  moreover have "key (entries tbl_a ! 12) = Some (Heap 0)"
    by code_simp
  ultimately show ?thesis
    using set_a i by simp
qed

text \<open>
  C3 (fails on the code). The claim: for a key inserted once, with no other key on
  its probe sequence, \<open>remove(k)\<close> with result Ok and then \<open>get(k)\<close> gives "not found".
  On the code, \<open>a\<close> is the only key of a fresh table; \<open>remove("a")\<close> returns 0 and frees
  the key, but slot 12 keeps the pointer: \<open>get("a")\<close> then compares with freed memory
  instead of returning the null pointer.
\<close>

theorem C3_get_after_remove_reads_freed_key:
  "ht_set True True [] tbl_empty ''a'' 1 = Inr (0, [Live ''a''], tbl_a) \<and>
   ht_remove [Live ''a''] (Some tbl_a) ''a''
     = Some (Inr (0, [Freed ''a''], Some (tbl_a\<lparr>length_ht := 0\<rparr>))) \<and>
   key (entries (tbl_a\<lparr>length_ht := 0\<rparr>) ! 12) = Some (Heap 0) \<and>
   ht_get [Freed ''a''] (tbl_a\<lparr>length_ht := 0\<rparr>) ''a'' = Inl UseAfterFree"
  by code_simp

text \<open>
  C4 (fails on the code). The claim: after \<open>N\<close> successful \<open>set\<close> calls with distinct
  keys on a fresh table \<open>length()\<close> is \<open>N\<close>, growth leaves the length as it is, and every
  key inserted before stays retrievable with its value. On the code, nine distinct keys
  are set, all calls return 0, the ninth call grows the table to 32 slots and the length is
  9; but \<open>a\<close> was overwritten by \<open>q\<close> (both start at slot 12 of 16), so \<open>get("a")\<close>
  returns the null pointer, not 1.
\<close>

theorem C4_key_lost_among_distinct_keys:
  "distinct [''a'', ''q'', ''b'', ''c'', ''d'', ''e'', ''f'', ''g'', ''h''] \<and>
   ht_create True True True = Some tbl_empty \<and>
   ht_set_all [] tbl_empty
     [(''a'', 1), (''q'', 2), (''b'', 3), (''c'', 4), (''d'', 5), (''e'', 6), (''f'', 7),
      (''g'', 8), (''h'', 9)]
     = Inr ([0, 0, 0, 0, 0, 0, 0, 0, 0], mem_aq_to_h, tbl_aq_to_h) \<and>
   ht_length tbl_aq_to_h = 9 \<and>
   capacity tbl_aq_to_h = 32 \<and>
   ht_get mem_aq_to_h tbl_aq_to_h ''q'' = Inr 2 \<and>
   ht_get mem_aq_to_h tbl_aq_to_h ''a'' = Inr NULL"
  by code_simp




text \<open>
  C6 (holds). In every table reached from \<open>create\<close>: the capacity is a power of two,
  at least 16; when the probe of an insertion starts (after the growth step of \<open>set\<close>),
  the length is at most half the capacity; \<open>set\<close> leaves the capacity or doubles it, and
  \<open>remove\<close> leaves it.
\<close>

theorem C6_capacity_and_load_factor:
  assumes "reachable m t"
  shows "(\<exists>n. 4 \<le> n \<and> n < 64 \<and> capacity t = 2 ^ n) \<and> 16 \<le> capacity t \<and>
         (\<forall>ok m1 t1. ht_set_grow ok m t = Inr (Some (m1, t1)) \<longrightarrow>
            length_ht t1 \<le> capacity t1 div 2) \<and>
         (\<forall>c s k v r m' t'. ht_set c s m t k v = Inr (r, m', t') \<longrightarrow>
            capacity t' = capacity t \<or> unat (capacity t') = 2 * unat (capacity t)) \<and>
         (\<forall>k r m' t'. ht_remove m (Some t) k = Some (Inr (r, m', Some t')) \<longrightarrow>
            capacity t' = capacity t)"
proof (intro conjI allI impI)
  from assms have inv: "ht_inv m t" by (rule reachable_inv)
  then obtain n where n: "4 \<le> n" "n < 64" "capacity t = 2 ^ n" "unat (capacity t) = 2 ^ n"
    by (rule ht_invD)
  {
    from n show "\<exists>n. 4 \<le> n \<and> n < 64 \<and> capacity t = 2 ^ n" by blast
  next
    have "(2::nat) ^ 4 \<le> 2 ^ n" using n(1) by (intro power_increasing) simp_all
    with n(4) show "16 \<le> capacity t" by (simp add: word_le_nat_alt)
  next
    fix ok m1 t1 assume "ht_set_grow ok m t = Inr (Some (m1, t1))"
    from ht_set_grow_ok [OF inv this]
    have "unat (length_ht t1) < unat (capacity t1) div 2" by blast
    then show "length_ht t1 \<le> capacity t1 div 2"
      by (simp add: word_le_nat_alt unat_div)
  next
    fix c s k v r m' t' assume "ht_set c s m t k v = Inr (r, m', t')"
    from ht_set_inv [OF inv this]
    show "capacity t' = capacity t \<or> unat (capacity t') = 2 * unat (capacity t)" by blast
  next
    fix k r m' t' assume "ht_remove m (Some t) k = Some (Inr (r, m', Some t'))"
    from remove_inv [OF inv this] show "capacity t' = capacity t" by simp
  }
qed

text \<open>
  Witness of C6: the table holding \<open>a\<close> to \<open>h\<close> has length 8 and capacity 16; the next
  insertion grows it to 32 before it probes.
\<close>

theorem C6_witness:
  "reachable mem_a_to_h tbl_a_to_h \<and>
   16 \<le> capacity tbl_a_to_h \<and>
   ht_set_grow True mem_a_to_h tbl_a_to_h = Inr (Some (mem_a_to_h, tbl_a_to_h_grown)) \<and>
   length_ht tbl_a_to_h_grown \<le> capacity tbl_a_to_h_grown div 2 \<and>
   ht_set True False mem_a_to_h tbl_a_to_h ''i'' 9 = Inr (- 1, mem_a_to_h, tbl_a_to_h_grown) \<and>
   unat (capacity tbl_a_to_h_grown) = 2 * unat (capacity tbl_a_to_h) \<and>
   ht_remove mem_a_to_h (Some tbl_a_to_h) ''a''
     = Some (Inr (0, mem_a_to_h[0 := Freed ''a''], Some (tbl_a_to_h\<lparr>length_ht := 7\<rparr>))) \<and>
   capacity (tbl_a_to_h\<lparr>length_ht := 7\<rparr>) = capacity tbl_a_to_h"
proof -
  note T = C6_capacity_and_load_factor [OF reachable_a_to_h]
  from T have 1: "16 \<le> capacity tbl_a_to_h" by blast
  from T grow_a_to_h have 2: "length_ht tbl_a_to_h_grown \<le> capacity tbl_a_to_h_grown div 2"
    by blast
  from T fail_i have "capacity tbl_a_to_h_grown = capacity tbl_a_to_h \<or>
      unat (capacity tbl_a_to_h_grown) = 2 * unat (capacity tbl_a_to_h)" by blast
  moreover have "capacity tbl_a_to_h_grown \<noteq> capacity tbl_a_to_h"
    by (simp add: tbl_a_to_h_grown_def tbl_a_to_h_def)
  ultimately have 3: "unat (capacity tbl_a_to_h_grown) = 2 * unat (capacity tbl_a_to_h)"
    by blast
  from T remove_a_of_h have 4: "capacity (tbl_a_to_h\<lparr>length_ht := 7\<rparr>) = capacity tbl_a_to_h"
    by blast
  from reachable_a_to_h 1 grow_a_to_h 2 fail_i 3 remove_a_of_h 4 show ?thesis
    by (intro conjI)
qed

text \<open>
  C7 (fails as stated). The claim: a \<open>set\<close> that returns a failure leaves entries,
  capacity and length exactly as they were. Counterexample: the table holds \<open>a\<close> to \<open>h\<close>
  (length 8, capacity 16); \<open>set("i", 9)\<close> grows the table to 32 slots, then the copy of the
  key cannot be allocated and the call returns -1: the table stays grown.
\<close>

theorem C7_failed_set_after_growth_counterexample:
  "ht_set_all [] tbl_empty
     [(''a'', 1), (''b'', 2), (''c'', 3), (''d'', 4), (''e'', 5), (''f'', 6), (''g'', 7), (''h'', 8)]
     = Inr ([0, 0, 0, 0, 0, 0, 0, 0], mem_a_to_h, tbl_a_to_h) \<and>
   ht_set True False mem_a_to_h tbl_a_to_h ''i'' 9 = Inr (- 1, mem_a_to_h, tbl_a_to_h_grown) \<and>
   capacity tbl_a_to_h = 16 \<and> capacity tbl_a_to_h_grown = 32 \<and>
   entries tbl_a_to_h_grown \<noteq> entries tbl_a_to_h"
proof -
  have "length (entries tbl_a_to_h_grown) \<noteq> length (entries tbl_a_to_h)"
    by (simp add: tbl_a_to_h_grown_def tbl_a_to_h_def calloc_entries_def)
  then have "entries tbl_a_to_h_grown \<noteq> entries tbl_a_to_h" by auto
  moreover have "capacity tbl_a_to_h = 16" "capacity tbl_a_to_h_grown = 32"
    by (simp_all add: tbl_a_to_h_grown_def tbl_a_to_h_def)
  ultimately show ?thesis
    using set_a_to_h fail_i by simp
qed

text \<open>
  C7, amended: a \<open>set\<close> that returns a failure copies and frees no key and leaves the
  length as it was. It leaves the table exactly as it was when the value is null, when
  no growth was due (the length is below half the capacity), and when growth failed. When
  growth was due and succeeded, and the insertion then failed (the key could not be copied,
  or the probe wrapped around), the table is the one \<^verbatim>\<open>ht_expand\<close> made: capacity
  doubled, entries re-inserted, not rolled back.
\<close>

theorem C7_failed_set_frame:
  assumes set: "ht_set c s m t k v = Inr (r, m', t')" and r: "r \<noteq> 0"
  shows "r = - 1 \<and> m' = m \<and> length_ht t' = length_ht t \<and>
    (v = NULL \<longrightarrow> t' = t) \<and>
    (length_ht t < capacity t div 2 \<longrightarrow> t' = t) \<and>
    (\<forall>m1 t1. ht_expand c m t = Inr (False, m1, t1) \<longrightarrow> t' = t) \<and>
    (v \<noteq> NULL \<longrightarrow> capacity t div 2 \<le> length_ht t \<longrightarrow>
       (\<forall>m1 t1. ht_expand c m t = Inr (True, m1, t1) \<longrightarrow>
          m1 = m \<and> t' = t1 \<and> capacity t' = capacity t * 2 \<and>
          ht_set_entry s m (entries t1) (capacity t1) (Lit k) v (Some (length_ht t1))
            = Inr (None, m, entries t1, Some (length_ht t1))))"
proof -
  from ht_set_unfold [OF set] consider
      (fail) "r = - 1" "m' = m" "t' = t" "v = NULL \<or> ht_set_grow c m t = Inr None"
    | (probe) m1 t1 ret es2 pl where "v \<noteq> NULL" "ht_set_grow c m t = Inr (Some (m1, t1))"
        "ht_set_entry s m1 (entries t1) (capacity t1) (Lit k) v (Some (length_ht t1))
           = Inr (ret, m', es2, pl)"
        "t' = t1\<lparr>entries := es2, length_ht := (case pl of Some n \<Rightarrow> n | None \<Rightarrow> length_ht t1)\<rparr>"
        "r = (if ret \<noteq> None then 0 else - 1)"
    by blast
  then show ?thesis
  proof cases
    case fail
    have "False" if "v \<noteq> NULL" "capacity t div 2 \<le> length_ht t"
      "ht_expand c m t = Inr (True, m1, t1)" for m1 t1
      using that fail(4) by (simp add: ht_set_grow_def)
    with fail(1,2,3) show ?thesis by blast
  next
    case probe
    from probe(5) r have ret: "ret = None" and r1: "r = - 1" by (simp_all split: if_splits)
    with set_entry_cases [OF probe(3)]
    have same: "m' = m1" "es2 = entries t1" "pl = Some (length_ht t1)"
      by auto
    with probe(4) have t': "t' = t1" by simp
    show ?thesis
    proof (cases "capacity t div 2 \<le> length_ht t")
      case False
      with probe(2) have "m1 = m" "t1 = t" by (simp_all add: ht_set_grow_def)
      with same t' r1 False probe(1) show ?thesis by simp
    next
      case True
      with probe(2) have ex: "ht_expand c m t = Inr (True, m1, t1)"
        by (auto simp: ht_set_grow_def split: sum.splits if_splits)
      from ht_expand_frame [OF ex] have fr: "m1 = m" "length_ht t1 = length_ht t"
        "capacity t1 = capacity t * 2" by simp_all
      from probe(3) ret same fr(1)
      have se: "ht_set_entry s m (entries t1) (capacity t1) (Lit k) v (Some (length_ht t1))
            = Inr (None, m, entries t1, Some (length_ht t1))" by simp
      from True have nl: "\<not> length_ht t < capacity t div 2" by simp
      from r1 same(1) t' fr ex se nl probe(1) show ?thesis by simp
    qed
  qed
qed

text \<open>
  Witness of C7, amended: the failing call of the counterexample (growth was due and
  succeeded, the copy of the key failed), and on the table holding \<open>a\<close> alone a call
  with the null value and a call whose copy of the key fails, with no growth due.
\<close>

theorem C7_witness:
  "ht_set True False mem_a_to_h tbl_a_to_h ''i'' 9 = Inr (- 1, mem_a_to_h, tbl_a_to_h_grown) \<and>
   (9 :: voidp) \<noteq> NULL \<and>
   capacity tbl_a_to_h div 2 \<le> length_ht tbl_a_to_h \<and>
   ht_expand True mem_a_to_h tbl_a_to_h = Inr (True, mem_a_to_h, tbl_a_to_h_grown) \<and>
   length_ht tbl_a_to_h_grown = length_ht tbl_a_to_h \<and>
   capacity tbl_a_to_h_grown = capacity tbl_a_to_h * 2 \<and>
   ht_set_entry False mem_a_to_h (entries tbl_a_to_h_grown) (capacity tbl_a_to_h_grown) (Lit ''i'') 9
      (Some (length_ht tbl_a_to_h_grown))
     = Inr (None, mem_a_to_h, entries tbl_a_to_h_grown, Some (length_ht tbl_a_to_h_grown)) \<and>
   ht_set True True [Live ''a''] tbl_a ''b'' NULL = Inr (- 1, [Live ''a''], tbl_a) \<and>
   length_ht tbl_a < capacity tbl_a div 2 \<and>
   ht_set True False [Live ''a''] tbl_a ''b'' 2 = Inr (- 1, [Live ''a''], tbl_a)"
proof -
  have r: "(- 1 :: int) \<noteq> 0" by simp
  have v: "(9 :: voidp) \<noteq> NULL" by (simp add: NULL_def)
  have due: "capacity tbl_a_to_h div 2 \<le> length_ht tbl_a_to_h"
    by code_simp
  from C7_failed_set_frame [OF fail_i r] v due expand_a_to_h
  have 1: "length_ht tbl_a_to_h_grown = length_ht tbl_a_to_h"
    "capacity tbl_a_to_h_grown = capacity tbl_a_to_h * 2"
    "ht_set_entry False mem_a_to_h (entries tbl_a_to_h_grown) (capacity tbl_a_to_h_grown)
        (Lit ''i'') 9 (Some (length_ht tbl_a_to_h_grown))
       = Inr (None, mem_a_to_h, entries tbl_a_to_h_grown, Some (length_ht tbl_a_to_h_grown))"
    by blast+
  have n: "ht_set True True [Live ''a''] tbl_a ''b'' NULL = Inr (- 1, [Live ''a''], tbl_a)"
    by (simp add: ht_set_def)
  have small: "length_ht tbl_a < capacity tbl_a div 2"
    by code_simp
  have 2: "ht_set True False [Live ''a''] tbl_a ''b'' 2 = Inr (- 1, [Live ''a''], tbl_a)"
    by code_simp
  from fail_i v due expand_a_to_h 1 n small 2 show ?thesis
    by (intro conjI)
qed

text \<open>
  C8 (fails on the code). The claim: after \<open>set("a",1)\<close>, \<open>set("b",2)\<close>, \<open>set("c",3)\<close>
  the length is 3 and \<open>get("b")\<close> is 2; after \<open>remove("a")\<close>, \<open>get("a")\<close> gives "not found",
  the length is 2 and a fresh cursor yields exactly \<open>b\<close> and \<open>c\<close>. On the code the first
  part holds and the length is 2 after the removal, but slot 12 keeps the pointer to the
  freed key: \<open>get("a")\<close> compares with freed memory, and the cursor yields three entries
  (slots 2, 5 and 12), the last with the freed key and the value 1, before it is
  exhausted.
\<close>

theorem C8_cursor_yields_removed_entry:
  "ht_set_all [] tbl_empty [(''a'', 1), (''b'', 2), (''c'', 3)] = Inr ([0, 0, 0], mem_abc, tbl_abc) \<and>
   ht_length tbl_abc = 3 \<and>
   ht_get mem_abc tbl_abc ''b'' = Inr 2 \<and>
   ht_remove mem_abc (Some tbl_abc) ''a'' = Some (Inr (0, mem_abc_removed, Some tbl_abc_removed)) \<and>
   ht_length tbl_abc_removed = 2 \<and>
   ht_get mem_abc_removed tbl_abc_removed ''a'' = Inl UseAfterFree \<and>
   ht_next tbl_abc_removed (ht_iterator tbl_abc_removed)
     = Inr (True, \<lparr>it_key = Some (Heap 2), it_value = 3, it_index = 3\<rparr>) \<and>
   ht_next tbl_abc_removed \<lparr>it_key = Some (Heap 2), it_value = 3, it_index = 3\<rparr>
     = Inr (True, \<lparr>it_key = Some (Heap 1), it_value = 2, it_index = 6\<rparr>) \<and>
   ht_next tbl_abc_removed \<lparr>it_key = Some (Heap 1), it_value = 2, it_index = 6\<rparr>
     = Inr (True, \<lparr>it_key = Some (Heap 0), it_value = 1, it_index = 13\<rparr>) \<and>
   mem_abc_removed ! 0 = Freed ''a'' \<and>
   ht_next tbl_abc_removed \<lparr>it_key = Some (Heap 0), it_value = 1, it_index = 13\<rparr>
     = Inr (False, \<lparr>it_key = Some (Heap 0), it_value = 1, it_index = 16\<rparr>)"
  by code_simp

text \<open>
  C9 (holds). On a table reached from \<open>create\<close>: when \<open>set(k, v1)\<close> and then
  \<open>set(k, v2)\<close> return 0, \<open>get(k)\<close> returns \<open>v2\<close> and the length after the second call is
  the length after the first. (A call that returns 0 was given a non-null value.)
\<close>

theorem C9_overwrite_keeps_length:
  assumes "reachable m t"
    and "ht_set c1 s1 m t k v1 = Inr (0, m1, t1)"
    and "ht_set c2 s2 m1 t1 k v2 = Inr (0, m2, t2)"
  shows "ht_get m2 t2 k = Inr v2 \<and> ht_length t2 = ht_length t1"
proof -
  from assms(1) have inv: "ht_inv m t" by (rule reachable_inv)
  from ht_set_inv [OF inv assms(2)] have inv1: "ht_inv m1 t1"
    and h1: "holds m1 (entries t1) (capacity t1) k v1" by simp_all
  from ht_set_inv [OF inv1 assms(3)] have "holds m2 (entries t2) (capacity t2) k v2" by simp
  then have get: "ht_get m2 t2 k = Inr v2" by (rule get_holds)
  from ht_set_unfold [OF assms(3)] obtain ma ta ret es2 pl where
    g: "ht_set_grow c2 m1 t1 = Inr (Some (ma, ta))"
    and se: "ht_set_entry s2 ma (entries ta) (capacity ta) (Lit k) v2 (Some (length_ht ta))
           = Inr (ret, m2, es2, pl)"
    and t2: "t2 = ta\<lparr>entries := es2, length_ht := (case pl of Some n \<Rightarrow> n | None \<Rightarrow> length_ht ta)\<rparr>"
    by auto
  from ht_set_grow_ok [OF inv1 g, of k v1] h1 have ma: "ma = m1"
    and la: "length_ht ta = length_ht t1"
    and ha: "holds m1 (entries ta) (capacity ta) k v1" by blast+
  from set_entry_hit [OF ha, of s2 v2 "length_ht ta"] se ma have "pl = Some (length_ht ta)"
    by simp
  with t2 la have "length_ht t2 = length_ht t1" by simp
  with get show ?thesis by (simp add: ht_length_def)
qed

text \<open>
  Witness of C9: on the table holding \<open>a\<close> to \<open>h\<close>, \<open>set("a", 5)\<close> (which grows the
  table) and then \<open>set("a", 6)\<close>.
\<close>

theorem C9_witness:
  "reachable mem_a_to_h tbl_a_to_h \<and>
   ht_set True True mem_a_to_h tbl_a_to_h ''a'' 5
     = Inr (0, mem_a_to_h, tbl_a_to_h_set_a 5) \<and>
   ht_set True True mem_a_to_h
      (tbl_a_to_h_set_a 5) ''a'' 6
     = Inr (0, mem_a_to_h, tbl_a_to_h_set_a 6) \<and>
   ht_get mem_a_to_h (tbl_a_to_h_set_a 6) ''a''
     = Inr 6 \<and>
   ht_length (tbl_a_to_h_set_a 6)
     = ht_length (tbl_a_to_h_set_a 5)"
  using C9_overwrite_keeps_length [OF reachable_a_to_h set_a_again set_a_third]
    reachable_a_to_h set_a_again set_a_third
  by (intro conjI) simp_all

text \<open>
  C10 (holds). A \<open>remove\<close> that returns 0 changes one field of the table, the length,
  to the length minus one (in 64-bit arithmetic; on a table reached from \<open>create\<close> the
  length was not 0, so it goes down by one). The entries, the capacity, and the slot of
  the key with its pointer and its value are as before; the slot stays occupied. In the
  store, the block of the key is freed.
\<close>

theorem C10_remove_changes_only_length:
  assumes "ht_remove m (Some t) k = Some (Inr (0, m', x))"
  shows "\<exists>t'. x = Some t' \<and> entries t' = entries t \<and> capacity t' = capacity t \<and>
      length_ht t' = length_ht t - 1 \<and>
      key (entries t' ! slot_index k (capacity t')) \<noteq> None \<and>
      (\<exists>a s. key (entries t ! slot_index k (capacity t)) = Some (Heap a) \<and> a < length m \<and>
         m ! a = Live s \<and> m' = m[a := Freed s]) \<and>
      (reachable m t \<longrightarrow> length_ht t \<noteq> 0 \<and> unat (length_ht t') = unat (length_ht t) - 1)"
proof -
  from remove_cases [OF assms] obtain a s where
    a: "key (entries t ! slot_index k (capacity t)) = Some (Heap a)" "a < length m"
      "m ! a = Live s" "m' = m[a := Freed s]"
    and x: "x = Some (t\<lparr>length_ht := length_ht t - 1\<rparr>)"
    by auto
  have "length_ht t \<noteq> 0 \<and> unat (length_ht t - 1) = unat (length_ht t) - 1" if "reachable m t"
  proof -
    from that have "ht_inv m t" by (rule reachable_inv)
    from remove_pos [OF this assms] have "length_ht t \<noteq> 0" .
    then show ?thesis by (simp add: unat_minus_one)
  qed
  with a x show ?thesis by simp
qed

text \<open>Witness of C10: \<open>remove("a")\<close> on the table holding \<open>a\<close> to \<open>h\<close>.\<close>

theorem C10_witness:
  "reachable mem_a_to_h tbl_a_to_h \<and>
   ht_remove mem_a_to_h (Some tbl_a_to_h) ''a''
     = Some (Inr (0, mem_a_to_h[0 := Freed ''a''], Some (tbl_a_to_h\<lparr>length_ht := 7\<rparr>))) \<and>
   entries (tbl_a_to_h\<lparr>length_ht := 7\<rparr>) = entries tbl_a_to_h \<and>
   capacity (tbl_a_to_h\<lparr>length_ht := 7\<rparr>) = capacity tbl_a_to_h \<and>
   length_ht (tbl_a_to_h\<lparr>length_ht := 7\<rparr>) = length_ht tbl_a_to_h - 1 \<and>
   key (entries (tbl_a_to_h\<lparr>length_ht := 7\<rparr>) ! 12) = Some (Heap 0) \<and>
   unat (length_ht (tbl_a_to_h\<lparr>length_ht := 7\<rparr>)) = unat (length_ht tbl_a_to_h) - 1"
proof -
  from C10_remove_changes_only_length [OF remove_a_of_h] reachable_a_to_h
  have "length_ht (tbl_a_to_h\<lparr>length_ht := 7\<rparr>) = length_ht tbl_a_to_h - 1 \<and>
    unat (length_ht (tbl_a_to_h\<lparr>length_ht := 7\<rparr>)) = unat (length_ht tbl_a_to_h) - 1"
    by simp
  moreover have "key (entries (tbl_a_to_h\<lparr>length_ht := 7\<rparr>) ! 12) = Some (Heap 0)"
    by code_simp
  ultimately show ?thesis
    using reachable_a_to_h remove_a_of_h by simp
qed

end
